theory Spec2Isabelle
  imports Complex_Main "HOL-Library.Signed_Division"
begin

section \<open>Conventions of the embedding\<close>

text \<open>
  The development embeds \<^verbatim>\<open>functions_optimized.c\<close>, which exists in two copies:
  \<^verbatim>\<open>src/deadline/mbb\<close> and \<^verbatim>\<open>src/deadline/texto_trabalho_cribari/codes\<close>. The copies
  differ only in \<^verbatim>\<open>monte_carlo_simulation\<close> (the second one also keeps the price paths).

  \<^item> In the resampling and in the optimiser a C \<^verbatim>\<open>double\<close> is a \<^typ>\<open>real\<close>: the
    arithmetic is exact, there is no rounding, no infinity and no NaN. Where the optimiser
    divides by a value that can be zero, the model stops with \<open>NotFinite\<close>, since the IEEE
    result is not a real number.
  \<^item> The prices of the simulation are values of the type \<open>double\<close> below: a finite number,
    an infinity or NaN. The exponential and the rounding of a product belong to the
    platform and are parameters, so a factor can underflow to 0 and a price can overflow.
  \<^item> A C \<^verbatim>\<open>int\<close> is an \<^typ>\<open>int\<close> between \<open>-2\<^sup>3\<^sup>1\<close> and \<open>2\<^sup>3\<^sup>1 - 1\<close>. The parameters are taken in
    that range; the result of an addition, a subtraction or a product of the source's index
    and size arithmetic is checked, and a result out of range (signed overflow, undefined
    in C; the usual platforms wrap) is the error \<open>Undefined\<close>.
  \<^item> A C array is a list, the pointer's extent; every access is checked, and an access out
    of range (undefined in C) is the error \<open>Undefined\<close>.
  \<^item> \<^verbatim>\<open>printf\<close> diagnostics are not part of the model.
\<close>

datatype error = InvalidInput | AllocationError | Undefined | NotFinite

section \<open>Machine integers and doubles\<close>

definition int_ok :: "int \<Rightarrow> bool" where
  "int_ok x \<longleftrightarrow> - 2147483648 \<le> x \<and> x \<le> 2147483647"

text \<open>The value of an \<^verbatim>\<open>int\<close> expression whose exact result is \<open>x\<close>.\<close>

definition c_int :: "int \<Rightarrow> error + int" where
  "c_int x = (if int_ok x then Inr x else Inl Undefined)"

text \<open>\<^verbatim>\<open>a * b + c\<close> on \<^verbatim>\<open>int\<close>: the product first, then the sum.\<close>

definition c_mul_add :: "int \<Rightarrow> int \<Rightarrow> int \<Rightarrow> error + int" where
  "c_mul_add a b c =
     (case c_int (a * b) of Inl e \<Rightarrow> Inl e | Inr p \<Rightarrow> c_int (p + c))"

text \<open>
  An IEEE double: a finite number (the sign of a zero is not kept), an infinity or NaN.
\<close>

datatype double = Fin real | PInf | NInf | NaN

text \<open>An infinity times a finite number \<open>x\<close>, by the sign of \<open>x\<close>; \<open>\<infinity> * 0\<close> is NaN.\<close>

definition inf_times :: "real \<Rightarrow> double" where
  "inf_times x = (if 0 < x then PInf else if x < 0 then NInf else NaN)"

section \<open>The C library\<close>

text \<open>
  The generator of \<^verbatim>\<open>rand\<close> is left abstract: \<open>'g\<close> is its hidden state, \<open>srand\<close> builds
  the state from a seed and \<open>rand\<close> draws a non-negative number. \<open>malloc_ok n\<close> tells
  whether a request for \<open>n\<close> cells of 8 bytes succeeds, \<open>junk\<close> is the indeterminate
  content of fresh memory. \<open>round_d r\<close> is the double that the platform gives for the exact
  result \<open>r\<close> of an operation (rounded; an infinity after overflow, 0 after underflow), and
  \<open>exp_d x\<close> is the result of \<^verbatim>\<open>exp\<close> at the finite double \<open>x\<close>.
\<close>

record 'g libc =
  srand :: "int \<Rightarrow> 'g"
  rand :: "'g \<Rightarrow> nat \<times> 'g"
  malloc_ok :: "int \<Rightarrow> bool"
  junk :: "nat \<Rightarrow> real"
  round_d :: "real \<Rightarrow> double"
  exp_d :: "real \<Rightarrow> double"

text \<open>The product of two doubles.\<close>

fun mul_d :: "'g libc \<Rightarrow> double \<Rightarrow> double \<Rightarrow> double" where
  "mul_d L NaN b = NaN"
| "mul_d L a NaN = NaN"
| "mul_d L (Fin x) (Fin y) = round_d L (x * y)"
| "mul_d L (Fin x) PInf = inf_times x"
| "mul_d L (Fin x) NInf = inf_times (- x)"
| "mul_d L PInf (Fin y) = inf_times y"
| "mul_d L NInf (Fin y) = inf_times (- y)"
| "mul_d L PInf PInf = PInf"
| "mul_d L PInf NInf = NInf"
| "mul_d L NInf PInf = NInf"
| "mul_d L NInf NInf = PInf"

text \<open>
  The process-wide random state: the \<^verbatim>\<open>static int seed_set\<close> of
  \<^verbatim>\<open>moving_block_bootstrap\<close>, the generator of the C library, and the history of the
  calls to \<^verbatim>\<open>srand\<close> (their arguments, oldest first), which records the effect.
\<close>

record 'g rng =
  seed_set :: bool
  gen :: 'g
  srand_calls :: "int list"

definition load :: "'a list \<Rightarrow> int \<Rightarrow> error + 'a" where
  "load a i = (if 0 \<le> i \<and> i < int (length a) then Inr (a ! nat i) else Inl Undefined)"

definition store :: "'a list \<Rightarrow> int \<Rightarrow> 'a \<Rightarrow> error + 'a list" where
  "store a i v = (if 0 \<le> i \<and> i < int (length a) then Inr (a[nat i := v]) else Inl Undefined)"

text \<open>
  \<^verbatim>\<open>malloc(size * sizeof(double))\<close>: a negative \<^verbatim>\<open>size\<close> converts to a request of more
  than \<open>2^63\<close> bytes (64-bit \<^verbatim>\<open>size_t\<close>), which fails.
\<close>

definition allocate_array :: "'g libc \<Rightarrow> int \<Rightarrow> real list option" where
  "allocate_array L sz =
     (if 0 \<le> sz \<and> malloc_ok L sz then Some (map (junk L) [0..<nat sz]) else None)"

text \<open>
  The same for a buffer of prices, whose cells can hold an infinity or NaN; the junk of a
  fresh cell is taken finite, and no result depends on it.
\<close>

definition allocate_prices :: "'g libc \<Rightarrow> int \<Rightarrow> double list option" where
  "allocate_prices L sz = map_option (map Fin) (allocate_array L sz)"

text \<open>\<^verbatim>\<open>rand() % max_val\<close>: the remainder of C truncates towards zero.\<close>

definition random_int :: "'g libc \<Rightarrow> int \<Rightarrow> 'g \<Rightarrow> error + (int \<times> 'g)" where
  "random_int L max_val g =
     (let (r, g') = rand L g
      in if max_val = 0 then Inl Undefined else Inr (int r smod max_val, g'))"

section \<open>Loops\<close>

text \<open>
  \<^verbatim>\<open>for (int i = a; i < n; i++) body\<close>, for a body that neither assigns \<^verbatim>\<open>i\<close> nor
  leaves the loop; the body may fail.
\<close>

function for_loop :: "int \<Rightarrow> int \<Rightarrow> (int \<Rightarrow> 's \<Rightarrow> error + 's) \<Rightarrow> 's \<Rightarrow> error + 's" where
  "for_loop i n body s =
     (if i < n then
        (case body i s of Inl e \<Rightarrow> Inl e | Inr s' \<Rightarrow> for_loop (i + 1) n body s')
      else Inr s)"
  by pat_completeness auto
termination
  by (relation "measure (\<lambda>(i, n, body, s). nat (n - i))") auto

declare for_loop.simps [simp del]

section \<open>Moving block bootstrap\<close>

text \<open>The inner \<^verbatim>\<open>for\<close> of \<^verbatim>\<open>moving_block_bootstrap\<close>: it copies one block, cut at the end of the row.\<close>

function copy_block ::
  "real list \<Rightarrow> int \<Rightarrow> int \<Rightarrow> int \<Rightarrow> int \<Rightarrow> int \<Rightarrow> int \<Rightarrow> real list \<Rightarrow> error + (int \<times> real list)" where
  "copy_block log_returns block_start block_size sample_size bootstrap_idx i sample_idx samples =
     (if i < block_size \<and> sample_idx < sample_size then
        (case c_int (block_start + i) of
           Inl e \<Rightarrow> Inl e
         | Inr src \<Rightarrow>
        (case load log_returns src of
           Inl e \<Rightarrow> Inl e
         | Inr v \<Rightarrow>
        (case c_mul_add bootstrap_idx sample_size sample_idx of
           Inl e \<Rightarrow> Inl e
         | Inr dst \<Rightarrow>
        (case store samples dst v of
           Inl e \<Rightarrow> Inl e
         | Inr samples' \<Rightarrow>
             copy_block log_returns block_start block_size sample_size bootstrap_idx
               (i + 1) (sample_idx + 1) samples'))))
      else Inr (sample_idx, samples))"
  by pat_completeness auto
termination
  by (relation "measure (\<lambda>(lr, bs, block_size, ss, b, i, si, s). nat (block_size - i))") auto

declare copy_block.simps [simp del]

text \<open>
  The \<^verbatim>\<open>while (sample_idx < sample_size)\<close> loop. It need not end (a block of size 0 adds
  nothing to the row), hence the value \<open>None\<close> for a run that does not return.
\<close>

partial_function (option) fill_row ::
  "'g libc \<Rightarrow> real list \<Rightarrow> int \<Rightarrow> int \<Rightarrow> int \<Rightarrow> int \<Rightarrow> int \<Rightarrow> real list \<Rightarrow> 'g
     \<Rightarrow> (error + (real list \<times> 'g)) option" where
  "fill_row L log_returns n_blocks block_size sample_size bootstrap_idx sample_idx samples g =
     (if sample_idx < sample_size then
        (case random_int L n_blocks g of
           Inl e \<Rightarrow> Some (Inl e)
         | Inr (block_start, g') \<Rightarrow>
            (case copy_block log_returns block_start block_size sample_size bootstrap_idx
                    0 sample_idx samples of
               Inl e \<Rightarrow> Some (Inl e)
             | Inr (sample_idx', samples') \<Rightarrow>
                 fill_row L log_returns n_blocks block_size sample_size bootstrap_idx
                   sample_idx' samples' g'))
      else Some (Inr (samples, g)))"

text \<open>The outer \<^verbatim>\<open>for\<close> over the rows.\<close>

function bootstrap_rows ::
  "'g libc \<Rightarrow> real list \<Rightarrow> int \<Rightarrow> int \<Rightarrow> int \<Rightarrow> int \<Rightarrow> int \<Rightarrow> real list \<Rightarrow> 'g
     \<Rightarrow> (error + (real list \<times> 'g)) option" where
  "bootstrap_rows L log_returns n_blocks block_size sample_size n_bootstrap bootstrap_idx samples g =
     (if bootstrap_idx < n_bootstrap then
        (case fill_row L log_returns n_blocks block_size sample_size bootstrap_idx 0 samples g of
           None \<Rightarrow> None
         | Some (Inl e) \<Rightarrow> Some (Inl e)
         | Some (Inr (samples', g')) \<Rightarrow>
             bootstrap_rows L log_returns n_blocks block_size sample_size n_bootstrap
               (bootstrap_idx + 1) samples' g')
      else Some (Inr (samples, g)))"
  by pat_completeness auto
termination
  by (relation "measure (\<lambda>(L, lr, nb, bs, ss, n_bootstrap, b, s, g). nat (n_bootstrap - b))") auto

declare bootstrap_rows.simps [simp del]

text \<open>The one-time seeding at the head of \<^verbatim>\<open>moving_block_bootstrap\<close>.\<close>

definition seed_once :: "'g libc \<Rightarrow> int \<Rightarrow> 'g rng \<Rightarrow> 'g rng" where
  "seed_once L seed st =
     (if seed > 0 \<and> \<not> seed_set st then
        st\<lparr>gen := srand L seed, srand_calls := srand_calls st @ [seed], seed_set := True\<rparr>
      else st)"

text \<open>
  The result is \<open>None\<close> when the call does not return; otherwise the returned pointer
  (\<open>Inl\<close> for \<^verbatim>\<open>NULL\<close>, with the reason, and for undefined behaviour) and the random state
  after the call. After undefined behaviour the returned generator is the one after
  seeding.
\<close>

definition moving_block_bootstrap ::
  "'g libc \<Rightarrow> 'g rng \<Rightarrow> real list \<Rightarrow> int \<Rightarrow> int \<Rightarrow> int \<Rightarrow> int \<Rightarrow> int
     \<Rightarrow> ((error + real list) \<times> 'g rng) option" where
  "moving_block_bootstrap L st log_returns n_returns n_bootstrap sample_size block_size seed =
     (let st1 = seed_once L seed st in
      if n_returns < block_size then Some (Inl InvalidInput, st1)
      else
        (case c_int (n_returns - block_size) of
           Inl e \<Rightarrow> Some (Inl e, st1)
         | Inr d \<Rightarrow>
        (case c_int (d + 1) of
           Inl e \<Rightarrow> Some (Inl e, st1)
         | Inr n_blocks \<Rightarrow>
        (case c_int (n_bootstrap * sample_size) of
           Inl e \<Rightarrow> Some (Inl e, st1)
         | Inr sz \<Rightarrow>
        (case allocate_array L sz of
           None \<Rightarrow> Some (Inl AllocationError, st1)
         | Some bootstrap_samples \<Rightarrow>
            (case bootstrap_rows L log_returns n_blocks block_size sample_size n_bootstrap
                    0 bootstrap_samples (gen st1) of
               None \<Rightarrow> None
             | Some (Inl e) \<Rightarrow> Some (Inl e, st1)
             | Some (Inr (samples, g')) \<Rightarrow> Some (Inr samples, st1\<lparr>gen := g'\<rparr>)))))))"

section \<open>Monte Carlo simulation\<close>

text \<open>
  \<^verbatim>\<open>src/deadline/mbb/functions_optimized.c\<close>: only the final prices are kept. The
  body of the inner loop compounds one log-return:
  \<^verbatim>\<open>current_price *= exp(log_return)\<close>, in doubles. The starting price and the
  log-returns are finite doubles.
\<close>

definition compound ::
  "'g libc \<Rightarrow> real list \<Rightarrow> int \<Rightarrow> int \<Rightarrow> int \<Rightarrow> double \<Rightarrow> error + double" where
  "compound L bootstrap_samples bootstrap_idx sample_size t current_price =
     (case c_mul_add bootstrap_idx sample_size t of
        Inl e \<Rightarrow> Inl e
      | Inr k \<Rightarrow>
     (case load bootstrap_samples k of
        Inl e \<Rightarrow> Inl e
      | Inr log_return \<Rightarrow> Inr (mul_d L current_price (exp_d L log_return))))"

definition mc_iteration ::
  "'g libc \<Rightarrow> real \<Rightarrow> real list \<Rightarrow> int \<Rightarrow> int \<Rightarrow> int \<Rightarrow> double list \<times> 'g
     \<Rightarrow> error + (double list \<times> 'g)" where
  "mc_iteration L S0 bootstrap_samples n_bootstrap sample_size iter s =
     (case s of (final_prices, g) \<Rightarrow>
       (case random_int L n_bootstrap g of
          Inl e \<Rightarrow> Inl e
        | Inr (bootstrap_idx, g') \<Rightarrow>
           (case for_loop 0 sample_size (compound L bootstrap_samples bootstrap_idx sample_size)
                   (Fin S0) of
              Inl e \<Rightarrow> Inl e
            | Inr current_price \<Rightarrow>
               (case store final_prices iter current_price of
                  Inl e \<Rightarrow> Inl e
                | Inr final_prices' \<Rightarrow> Inr (final_prices', g')))))"

definition monte_carlo_simulation ::
  "'g libc \<Rightarrow> 'g \<Rightarrow> real \<Rightarrow> real list \<Rightarrow> int \<Rightarrow> int \<Rightarrow> int \<Rightarrow> error + (double list \<times> 'g)" where
  "monte_carlo_simulation L g S0 bootstrap_samples n_bootstrap sample_size iterations =
     (case allocate_prices L iterations of
        None \<Rightarrow> Inl AllocationError
      | Some final_prices \<Rightarrow>
          for_loop 0 iterations (mc_iteration L S0 bootstrap_samples n_bootstrap sample_size)
            (final_prices, g))"

text \<open>
  \<^verbatim>\<open>src/deadline/texto_trabalho_cribari/codes/functions_optimized.c\<close>: one buffer holds the
  final prices (cells \<open>0 .. iterations - 1\<close>) and then the paths, \<open>sample_size\<close> cells
  each. The parameter \<^verbatim>\<open>seed\<close> is not used by the C function.
\<close>

definition compound_path ::
  "'g libc \<Rightarrow> real list \<Rightarrow> int \<Rightarrow> int \<Rightarrow> int \<Rightarrow> int \<Rightarrow> int \<Rightarrow> double \<times> double list
     \<Rightarrow> error + (double \<times> double list)" where
  "compound_path L bootstrap_samples bootstrap_idx sample_size iterations iter t s =
     (case s of (current_price, results) \<Rightarrow>
       (case c_mul_add bootstrap_idx sample_size t of
          Inl e \<Rightarrow> Inl e
        | Inr k \<Rightarrow>
       (case load bootstrap_samples k of
          Inl e \<Rightarrow> Inl e
        | Inr log_return \<Rightarrow>
           (let current_price' = mul_d L current_price (exp_d L log_return) in
           (case c_mul_add iter sample_size iterations of
              Inl e \<Rightarrow> Inl e
            | Inr base \<Rightarrow>
           (case c_int (base + t) of
              Inl e \<Rightarrow> Inl e
            | Inr cell \<Rightarrow>
           (case store results cell current_price' of
              Inl e \<Rightarrow> Inl e
            | Inr results' \<Rightarrow> Inr (current_price', results'))))))))"

definition mc_path_iteration ::
  "'g libc \<Rightarrow> real \<Rightarrow> real list \<Rightarrow> int \<Rightarrow> int \<Rightarrow> int \<Rightarrow> int \<Rightarrow> double list \<times> 'g
     \<Rightarrow> error + (double list \<times> 'g)" where
  "mc_path_iteration L S0 bootstrap_samples n_bootstrap sample_size iterations iter s =
     (case s of (results, g) \<Rightarrow>
       (case random_int L n_bootstrap g of
          Inl e \<Rightarrow> Inl e
        | Inr (bootstrap_idx, g') \<Rightarrow>
       (case c_mul_add iter sample_size iterations of
          Inl e \<Rightarrow> Inl e
        | Inr base \<Rightarrow>
           (case store results base (Fin S0) of
              Inl e \<Rightarrow> Inl e
            | Inr results1 \<Rightarrow>
               (case for_loop 0 sample_size
                       (compound_path L bootstrap_samples bootstrap_idx sample_size iterations iter)
                       (Fin S0, results1) of
                  Inl e \<Rightarrow> Inl e
                | Inr (current_price, results2) \<Rightarrow>
                   (case store results2 iter current_price of
                      Inl e \<Rightarrow> Inl e
                    | Inr results3 \<Rightarrow> Inr (results3, g')))))))"

definition monte_carlo_simulation_paths ::
  "'g libc \<Rightarrow> 'g \<Rightarrow> real \<Rightarrow> real list \<Rightarrow> int \<Rightarrow> int \<Rightarrow> int \<Rightarrow> int
     \<Rightarrow> error + (double list \<times> 'g)" where
  "monte_carlo_simulation_paths L g S0 bootstrap_samples n_bootstrap sample_size iterations seed =
     (case c_mul_add iterations sample_size iterations of
        Inl e \<Rightarrow> Inl e
      | Inr sz \<Rightarrow>
     (case allocate_prices L sz of
        None \<Rightarrow> Inl AllocationError
      | Some results \<Rightarrow>
          for_loop 0 iterations
            (mc_path_iteration L S0 bootstrap_samples n_bootstrap sample_size iterations)
            (results, g)))"

section \<open>Portfolio evaluation\<close>

definition weighted_term :: "real list \<Rightarrow> real list \<Rightarrow> int \<Rightarrow> int \<Rightarrow> int \<Rightarrow> real \<Rightarrow> error + real" where
  "weighted_term weights arrival_values n_assets sim asset v =
     (case load weights asset of
        Inl e \<Rightarrow> Inl e
      | Inr w \<Rightarrow>
     (case c_mul_add sim n_assets asset of
        Inl e \<Rightarrow> Inl e
      | Inr k \<Rightarrow>
     (case load arrival_values k of
        Inl e \<Rightarrow> Inl e
      | Inr a \<Rightarrow> Inr (v + w * a))))"

definition portfolio_value ::
  "real list \<Rightarrow> real list \<Rightarrow> int \<Rightarrow> int \<Rightarrow> real list \<Rightarrow> error + real list" where
  "portfolio_value weights arrival_values n_assets sim portfolio_values =
     (case for_loop 0 n_assets (weighted_term weights arrival_values n_assets sim) 0 of
        Inl e \<Rightarrow> Inl e
      | Inr v \<Rightarrow> store portfolio_values sim v)"

text \<open>\<open>Inl AllocationError\<close> is the \<^verbatim>\<open>NULL\<close> that the C function returns.\<close>

definition calculate_portfolio_returns ::
  "'g libc \<Rightarrow> real list \<Rightarrow> real list \<Rightarrow> int \<Rightarrow> int \<Rightarrow> error + real list" where
  "calculate_portfolio_returns L weights arrival_values n_assets n_simulations =
     (case allocate_array L n_simulations of
        None \<Rightarrow> Inl AllocationError
      | Some portfolio_values \<Rightarrow>
          for_loop 0 n_simulations (portfolio_value weights arrival_values n_assets)
            portfolio_values)"

definition accumulate :: "real list \<Rightarrow> int \<Rightarrow> real \<times> real \<Rightarrow> error + (real \<times> real)" where
  "accumulate portfolio_values i s =
     (case s of (sum_v, sum_sq) \<Rightarrow>
       (case load portfolio_values i of
          Inl e \<Rightarrow> Inl e
        | Inr v \<Rightarrow> Inr (sum_v + v, sum_sq + v * v)))"

definition calculate_sharpe_ratio :: "real list \<Rightarrow> int \<Rightarrow> real \<Rightarrow> error + real" where
  "calculate_sharpe_ratio portfolio_values n_values risk_free_rate =
     (if n_values \<le> 1 then Inr 0
      else
        (case for_loop 0 n_values (accumulate portfolio_values) (0, 0) of
           Inl e \<Rightarrow> Inl e
         | Inr (sum_v, sum_sq) \<Rightarrow>
            (let mean = sum_v / real_of_int n_values;
                 variance = sum_sq / real_of_int n_values - mean * mean;
                 std_dev = sqrt variance
             in if std_dev = 0 then Inr 0 else Inr ((mean - risk_free_rate) / std_dev))))"

definition negative_sharpe_ratio ::
  "'g libc \<Rightarrow> real list \<Rightarrow> real list \<Rightarrow> int \<Rightarrow> int \<Rightarrow> real \<Rightarrow> error + real" where
  "negative_sharpe_ratio L weights arrival_values n_assets n_simulations risk_free_rate =
     (case calculate_portfolio_returns L weights arrival_values n_assets n_simulations of
        Inl AllocationError \<Rightarrow> Inr 1000000
      | Inl e \<Rightarrow> Inl e
      | Inr portfolio_values \<Rightarrow>
         (case calculate_sharpe_ratio portfolio_values n_simulations risk_free_rate of
            Inl e \<Rightarrow> Inl e
          | Inr sharpe \<Rightarrow> Inr (- sharpe)))"

section \<open>Newton-Raphson optimisation of the weights\<close>

text \<open>\<^verbatim>\<open>a[i] += d\<close>.\<close>

definition add_to :: "real list \<Rightarrow> int \<Rightarrow> real \<Rightarrow> error + real list" where
  "add_to a i d = (case load a i of Inl e \<Rightarrow> Inl e | Inr v \<Rightarrow> store a i (v + d))"

text \<open>A \<^verbatim>\<open>double**\<close> matrix is a list of rows.\<close>

definition load_cell :: "real list list \<Rightarrow> int \<Rightarrow> int \<Rightarrow> error + real" where
  "load_cell m i j =
     (if 0 \<le> i \<and> i < int (length m) then load (m ! nat i) j else Inl Undefined)"

definition store_cell :: "real list list \<Rightarrow> int \<Rightarrow> int \<Rightarrow> real \<Rightarrow> error + real list list" where
  "store_cell m i j v =
     (if 0 \<le> i \<and> i < int (length m) then
        (case store (m ! nat i) j v of Inl e \<Rightarrow> Inl e | Inr row \<Rightarrow> Inr (m[nat i := row]))
      else Inl Undefined)"

definition allocate_matrix :: "'g libc \<Rightarrow> int \<Rightarrow> int \<Rightarrow> real list list option" where
  "allocate_matrix L rows cols =
     (if 0 \<le> rows \<and> malloc_ok L rows then
        (if rows = 0 then Some []
         else (case allocate_array L cols of
                 None \<Rightarrow> None
               | Some row \<Rightarrow> Some (replicate (nat rows) row)))
      else None)"

text \<open>
  The body of the loop that differentiates the objective numerically: central difference
  for the gradient, second difference plus \<open>10\<^sup>-\<^sup>6\<close> for the diagonal of the Hessian.
\<close>

definition differentiate ::
  "'g libc \<Rightarrow> real list \<Rightarrow> int \<Rightarrow> int \<Rightarrow> real \<Rightarrow> int
     \<Rightarrow> real list \<times> real list \<times> real list list
     \<Rightarrow> error + (real list \<times> real list \<times> real list list)" where
  "differentiate L arrival_values n_assets n_simulations risk_free_rate i s =
     (case s of (weights, gradient, hessian) \<Rightarrow>
      (let h = 1 / 1000000 in
      (case add_to weights i h of Inl e \<Rightarrow> Inl e | Inr weights1 \<Rightarrow>
      (case negative_sharpe_ratio L weights1 arrival_values n_assets n_simulations risk_free_rate of
        Inl e \<Rightarrow> Inl e | Inr f_forward \<Rightarrow>
      (case add_to weights1 i (- (2 * h)) of Inl e \<Rightarrow> Inl e | Inr weights2 \<Rightarrow>
      (case negative_sharpe_ratio L weights2 arrival_values n_assets n_simulations risk_free_rate of
        Inl e \<Rightarrow> Inl e | Inr f_backward \<Rightarrow>
      (case add_to weights2 i h of Inl e \<Rightarrow> Inl e | Inr weights3 \<Rightarrow>
      (case store gradient i ((f_forward - f_backward) / (2 * h)) of
        Inl e \<Rightarrow> Inl e | Inr gradient' \<Rightarrow>
      (case negative_sharpe_ratio L weights3 arrival_values n_assets n_simulations risk_free_rate of
        Inl e \<Rightarrow> Inl e | Inr f_here \<Rightarrow>
      (case store_cell hessian i i ((f_forward + f_backward - 2 * f_here) / (h * h)) of
        Inl e \<Rightarrow> Inl e | Inr hessian1 \<Rightarrow>
      (case load_cell hessian1 i i of Inl e \<Rightarrow> Inl e | Inr d \<Rightarrow>
      (case store_cell hessian1 i i (d + 1 / 1000000) of Inl e \<Rightarrow> Inl e | Inr hessian2 \<Rightarrow>
      Inr (weights3, gradient', hessian2)))))))))))))"

definition clear_cell :: "int \<Rightarrow> int \<Rightarrow> real list list \<Rightarrow> error + real list list" where
  "clear_cell i j hessian = (if i \<noteq> j then store_cell hessian i j 0 else Inr hessian)"

definition clear_row :: "int \<Rightarrow> int \<Rightarrow> real list list \<Rightarrow> error + real list list" where
  "clear_row n_assets i hessian = for_loop 0 n_assets (clear_cell i) hessian"

text \<open>
  \<^verbatim>\<open>delta[i] = -gradient[i] / hessian[i][i]\<close>; a zero on the diagonal gives an infinity
  or a NaN in C.
\<close>

definition solve_diagonal ::
  "real list \<Rightarrow> real list list \<Rightarrow> int \<Rightarrow> real list \<Rightarrow> error + real list" where
  "solve_diagonal gradient hessian i delta =
     (case load gradient i of Inl e \<Rightarrow> Inl e | Inr g \<Rightarrow>
      (case load_cell hessian i i of Inl e \<Rightarrow> Inl e | Inr d \<Rightarrow>
       if d = 0 then Inl NotFinite else store delta i (- g / d)))"

text \<open>The three loops of one attempt of the line search: step, clamp and sum, rescale.\<close>

definition move :: "real \<Rightarrow> real list \<Rightarrow> int \<Rightarrow> real list \<Rightarrow> error + real list" where
  "move alpha delta i weights =
     (case load delta i of Inl e \<Rightarrow> Inl e | Inr d \<Rightarrow> add_to weights i (alpha * d))"

definition clamp :: "int \<Rightarrow> real list \<times> real \<Rightarrow> error + (real list \<times> real)" where
  "clamp i s =
     (case s of (weights, sum_weights) \<Rightarrow>
      (case load weights i of Inl e \<Rightarrow> Inl e | Inr w \<Rightarrow>
      (case store weights i (max w 0) of Inl e \<Rightarrow> Inl e | Inr weights' \<Rightarrow>
      (case load weights' i of Inl e \<Rightarrow> Inl e | Inr w' \<Rightarrow>
       Inr (weights', sum_weights + w')))))"

definition rescale :: "real \<Rightarrow> int \<Rightarrow> real list \<Rightarrow> error + real list" where
  "rescale sum_weights i weights =
     (case load weights i of Inl e \<Rightarrow> Inl e | Inr w \<Rightarrow> store weights i (w / sum_weights))"

definition ls_attempt :: "int \<Rightarrow> real list \<Rightarrow> real \<Rightarrow> real list \<Rightarrow> error + real list" where
  "ls_attempt n_assets delta alpha weights =
     (case for_loop 0 n_assets (move alpha delta) weights of Inl e \<Rightarrow> Inl e | Inr weights1 \<Rightarrow>
      (case for_loop 0 n_assets clamp (weights1, 0) of
         Inl e \<Rightarrow> Inl e
       | Inr (weights2, sum_weights) \<Rightarrow>
           if sum_weights > 0 then for_loop 0 n_assets (rescale sum_weights) weights2
           else Inr weights2))"

text \<open>
  The backtracking loop, with its \<^verbatim>\<open>break\<close>. The result holds the value of
  \<^verbatim>\<open>ls_iter\<close> when the loop is left (10 when no attempt was accepted) and the weights.
\<close>

function line_search ::
  "'g libc \<Rightarrow> real list \<Rightarrow> int \<Rightarrow> int \<Rightarrow> real \<Rightarrow> real list \<Rightarrow> real \<Rightarrow> int \<Rightarrow> real \<Rightarrow> real list
     \<Rightarrow> error + (int \<times> real list)" where
  "line_search L arrival_values n_assets n_simulations risk_free_rate delta f_current
       ls_iter alpha weights =
     (if ls_iter < 10 then
        (case ls_attempt n_assets delta alpha weights of Inl e \<Rightarrow> Inl e | Inr weights' \<Rightarrow>
        (case negative_sharpe_ratio L weights' arrival_values n_assets n_simulations risk_free_rate of
           Inl e \<Rightarrow> Inl e
         | Inr f_new \<Rightarrow>
            if f_new < f_current then Inr (ls_iter, weights')
            else line_search L arrival_values n_assets n_simulations risk_free_rate delta f_current
                   (ls_iter + 1) (alpha * (1 / 2)) weights'))
      else Inr (ls_iter, weights))"
  by pat_completeness auto
termination
  by (relation "measure (\<lambda>(L, a, n, m, r, d, f, ls_iter, al, w). nat (10 - ls_iter))") auto

declare line_search.simps [simp del]

definition add_square :: "real list \<Rightarrow> int \<Rightarrow> real \<Rightarrow> error + real" where
  "add_square gradient i grad_norm =
     (case load gradient i of Inl e \<Rightarrow> Inl e | Inr g \<Rightarrow> Inr (grad_norm + g * g))"

text \<open>
  One round of the optimiser (the body of the loop over \<^verbatim>\<open>iter\<close>): the new weights and
  whether the norm of the gradient is below the tolerance.
\<close>

definition newton_round ::
  "'g libc \<Rightarrow> real list \<Rightarrow> int \<Rightarrow> int \<Rightarrow> real \<Rightarrow> real \<Rightarrow> real list \<Rightarrow> error + (real list \<times> bool)" where
  "newton_round L arrival_values n_assets n_simulations risk_free_rate tolerance weights =
     (case allocate_matrix L n_assets n_assets of None \<Rightarrow> Inl AllocationError | Some hessian \<Rightarrow>
     (case allocate_array L n_assets of None \<Rightarrow> Inl AllocationError | Some gradient \<Rightarrow>
     (case for_loop 0 n_assets
             (differentiate L arrival_values n_assets n_simulations risk_free_rate)
             (weights, gradient, hessian) of
        Inl e \<Rightarrow> Inl e | Inr (weights0, gradient', hessian1) \<Rightarrow>
     (case for_loop 0 n_assets (clear_row n_assets) hessian1 of Inl e \<Rightarrow> Inl e | Inr hessian' \<Rightarrow>
     (case allocate_array L n_assets of None \<Rightarrow> Inl AllocationError | Some delta0 \<Rightarrow>
     (case for_loop 0 n_assets (solve_diagonal gradient' hessian') delta0 of
        Inl e \<Rightarrow> Inl e | Inr delta \<Rightarrow>
     (case negative_sharpe_ratio L weights0 arrival_values n_assets n_simulations risk_free_rate of
        Inl e \<Rightarrow> Inl e | Inr f_current \<Rightarrow>
     (case line_search L arrival_values n_assets n_simulations risk_free_rate delta f_current
             0 1 weights0 of
        Inl e \<Rightarrow> Inl e | Inr (ls_iter, weights') \<Rightarrow>
     (case for_loop 0 n_assets (add_square gradient') 0 of Inl e \<Rightarrow> Inl e | Inr grad_norm \<Rightarrow>
      Inr (weights', sqrt grad_norm < tolerance))))))))))"

text \<open>The loop over \<^verbatim>\<open>iter\<close>, left early when a round reports convergence.\<close>

function newton_loop ::
  "'g libc \<Rightarrow> real list \<Rightarrow> int \<Rightarrow> int \<Rightarrow> real \<Rightarrow> int \<Rightarrow> real \<Rightarrow> int \<Rightarrow> real list \<Rightarrow> error + real list" where
  "newton_loop L arrival_values n_assets n_simulations risk_free_rate max_iterations tolerance
       iter weights =
     (if iter < max_iterations then
        (case newton_round L arrival_values n_assets n_simulations risk_free_rate tolerance weights of
           Inl e \<Rightarrow> Inl e
         | Inr (weights', converged) \<Rightarrow>
             if converged then Inr weights'
             else newton_loop L arrival_values n_assets n_simulations risk_free_rate
                    max_iterations tolerance (iter + 1) weights')
      else Inr weights)"
  by pat_completeness auto
termination
  by (relation "measure (\<lambda>(L, a, n, m, r, max_iterations, t, iter, w). nat (max_iterations - iter))") auto

declare newton_loop.simps [simp del]

definition copy_weight :: "real list \<Rightarrow> int \<Rightarrow> real list \<Rightarrow> error + real list" where
  "copy_weight initial_weights i weights =
     (case load initial_weights i of Inl e \<Rightarrow> Inl e | Inr v \<Rightarrow> store weights i v)"

definition optimize_portfolio_newton_raphson ::
  "'g libc \<Rightarrow> real list \<Rightarrow> int \<Rightarrow> int \<Rightarrow> real list \<Rightarrow> real \<Rightarrow> int \<Rightarrow> real \<Rightarrow> error + real list" where
  "optimize_portfolio_newton_raphson L arrival_values n_assets n_simulations initial_weights
       risk_free_rate max_iterations tolerance =
     (case allocate_array L n_assets of
        None \<Rightarrow> Inl AllocationError
      | Some weights0 \<Rightarrow>
         (case for_loop 0 n_assets (copy_weight initial_weights) weights0 of
            Inl e \<Rightarrow> Inl e
          | Inr weights \<Rightarrow>
              newton_loop L arrival_values n_assets n_simulations risk_free_rate
                max_iterations tolerance 0 weights))"

section \<open>A process: a sequence of calls\<close>

text \<open>
  The calls a process makes to the functions that draw random numbers, one after the
  other, on the process-wide random state. A simulation never seeds; after a failed
  simulation the state is kept as it was.
\<close>

datatype call =
    Bootstrap "real list" int int int int int
  | Simulate real "real list" int int int
  | SimulatePaths real "real list" int int int int

fun run_call :: "'g libc \<Rightarrow> 'g rng \<Rightarrow> call \<Rightarrow> 'g rng option" where
  "run_call L st (Bootstrap log_returns n_returns n_bootstrap sample_size block_size seed) =
     map_option snd
       (moving_block_bootstrap L st log_returns n_returns n_bootstrap sample_size block_size seed)"
| "run_call L st (Simulate S0 bootstrap_samples n_bootstrap sample_size iterations) =
     (case monte_carlo_simulation L (gen st) S0 bootstrap_samples n_bootstrap sample_size iterations of
        Inl e \<Rightarrow> Some st
      | Inr (final_prices, g') \<Rightarrow> Some (st\<lparr>gen := g'\<rparr>))"
| "run_call L st (SimulatePaths S0 bootstrap_samples n_bootstrap sample_size iterations seed) =
     (case monte_carlo_simulation_paths L (gen st) S0 bootstrap_samples n_bootstrap sample_size
             iterations seed of
        Inl e \<Rightarrow> Some st
      | Inr (results, g') \<Rightarrow> Some (st\<lparr>gen := g'\<rparr>))"

fun run_calls :: "'g libc \<Rightarrow> 'g rng \<Rightarrow> call list \<Rightarrow> 'g rng option" where
  "run_calls L st [] = Some st"
| "run_calls L st (c # cs) =
     (case run_call L st c of None \<Rightarrow> None | Some st' \<Rightarrow> run_calls L st' cs)"

fun seeds_requested :: "call list \<Rightarrow> int list" where
  "seeds_requested [] = []"
| "seeds_requested (Bootstrap log_returns n_returns n_bootstrap sample_size block_size seed # cs) =
     (if seed > 0 then seed # seeds_requested cs else seeds_requested cs)"
| "seeds_requested (c # cs) = seeds_requested cs"

section \<open>A concrete C library\<close>

text \<open>
  A linear congruential generator, a heap of 1000 cells, fresh memory filled with \<open>-1\<close>.
  The arithmetic on doubles is idealised: \<^verbatim>\<open>exp\<close> underflows to 0 at \<open>-746\<close> and below
  and overflows at 710 and above, as the IEEE double does, and is exact in between; a
  finite product is kept as it is. The process starts unseeded.
\<close>

definition lcg :: "nat libc" where
  "lcg = \<lparr>srand = nat,
          rand = (\<lambda>g. let g' = (g * 1103515245 + 12345) mod 2147483648 in (g', g')),
          malloc_ok = (\<lambda>n. n \<le> 1000),
          junk = (\<lambda>i. - 1),
          round_d = Fin,
          exp_d = (\<lambda>x. if x \<le> - 746 then Fin 0 else if 710 \<le> x then PInf else Fin (exp x))\<rparr>"

definition fresh :: "nat rng" where
  "fresh = \<lparr>seed_set = False, gen = 1, srand_calls = []\<rparr>"

section \<open>Notions used in the statements\<close>


text \<open>The weights are on the probability simplex, or they are all zero.\<close>

definition on_simplex_or_zero :: "real list \<Rightarrow> bool" where
  "on_simplex_or_zero w \<longleftrightarrow>
     (\<forall>x \<in> set w. 0 \<le> x) \<and> (sum_list w = 1 \<or> (\<forall>x \<in> set w. x = 0))"

text \<open>
  The attempts of one line search as the specification words them: attempt \<open>j\<close> (from 0)
  applies the step with \<open>alpha = (1/2)\<^sup>j\<close> to the weights that attempt \<open>j - 1\<close> left,
  clamped and rescaled; no attempt is undone. \<open>cumulative_attempts n delta j w\<close> are the
  weights after the first \<open>j\<close> attempts.
\<close>

fun cumulative_attempts :: "int \<Rightarrow> real list \<Rightarrow> nat \<Rightarrow> real list \<Rightarrow> error + real list" where
  "cumulative_attempts n_assets delta 0 w = Inr w"
| "cumulative_attempts n_assets delta (Suc j) w =
     (case cumulative_attempts n_assets delta j w of
        Inl e \<Rightarrow> Inl e
      | Inr w_j \<Rightarrow> ls_attempt n_assets delta ((1 / 2) ^ j) w_j)"

text \<open>
  Notions of the specification of the resampling: the block of the series that starts at
  an index, and a row of the flat buffer of samples (row-major, \<open>sample_size\<close> cells a row).
\<close>

definition block :: "real list \<Rightarrow> int \<Rightarrow> int \<Rightarrow> real list" where
  "block log_returns block_size block_start =
     take (nat block_size) (drop (nat block_start) log_returns)"

definition row :: "real list \<Rightarrow> int \<Rightarrow> int \<Rightarrow> real list" where
  "row samples sample_size bootstrap_idx =
     take (nat sample_size) (drop (nat (bootstrap_idx * sample_size)) samples)"

text \<open>
  What the \<^verbatim>\<open>while\<close> loop does to a row from cell \<open>sample_idx\<close> on: the rest of the row
  is the head of a concatenation of blocks whose starts lie in \<open>0 .. n_blocks - 1\<close>, the
  last block starting inside the row; nothing else changes.
\<close>

definition filled ::
  "real list \<Rightarrow> int \<Rightarrow> int \<Rightarrow> int \<Rightarrow> int \<Rightarrow> int \<Rightarrow> real list \<Rightarrow> real list \<Rightarrow> bool" where
  "filled log_returns n_blocks block_size sample_size bootstrap_idx sample_idx samples samples' \<longleftrightarrow>
     length samples' = length samples
   \<and> drop (nat (bootstrap_idx * sample_size + sample_size)) samples'
       = drop (nat (bootstrap_idx * sample_size + sample_size)) samples
   \<and> (\<exists>starts.
         (\<forall>s \<in> set starts. 0 \<le> s \<and> s < n_blocks)
       \<and> (1 \<le> block_size \<longrightarrow> int (length starts) * block_size < sample_size - sample_idx + block_size)
       \<and> take (nat (bootstrap_idx * sample_size + sample_size)) samples'
           = take (nat (bootstrap_idx * sample_size + sample_idx)) samples
             @ take (nat (sample_size - sample_idx))
                 (concat (map (block log_returns block_size) starts)))"

text \<open>A complete row: \<open>sample_size\<close> cells, the head of a concatenation of blocks.\<close>

definition resampled :: "real list \<Rightarrow> int \<Rightarrow> int \<Rightarrow> int \<Rightarrow> real list \<Rightarrow> bool" where
  "resampled log_returns n_blocks block_size sample_size r \<longleftrightarrow>
     length r = nat sample_size
   \<and> (\<exists>starts.
         (\<forall>s \<in> set starts. 0 \<le> s \<and> s < n_blocks)
       \<and> (1 \<le> block_size \<longrightarrow> int (length starts) * block_size < sample_size + block_size)
       \<and> r = take (nat sample_size) (concat (map (block log_returns block_size) starts)))"

text \<open>
  The two variants of the simulation after \<open>iter\<close> iterations: the same generator, the same
  final prices so far, and each final price is the last cell of the path of its iteration.
\<close>

definition agree ::
  "int \<Rightarrow> int \<Rightarrow> int \<Rightarrow> double list \<times> 'g \<Rightarrow> double list \<times> 'g \<Rightarrow> bool" where
  "agree iterations sample_size iter a p \<longleftrightarrow>
     snd p = snd a
   \<and> int (length (fst a)) = iterations
   \<and> int (length (fst p)) = iterations + iterations * sample_size
   \<and> (\<forall>k. 0 \<le> k \<and> k < iter \<longrightarrow>
         fst p ! nat k = fst a ! nat k
       \<and> fst p ! nat k = fst p ! nat (iterations + k * sample_size + sample_size - 1))"

section \<open>Properties\<close>

subsection \<open>Loops and arrays\<close>

lemma for_loop_done: "n \<le> i \<Longrightarrow> for_loop i n body s = Inr s"
  by (simp add: for_loop.simps)

lemma for_loop_step:
  "i < n \<Longrightarrow> for_loop i n body s =
     (case body i s of Inl e \<Rightarrow> Inl e | Inr s' \<Rightarrow> for_loop (i + 1) n body s')"
  by (subst for_loop.simps) simp

lemma for_loop_invariant:
  assumes "for_loop i n body s = Inr s'" and "P i s"
    and "\<And>j t t'. i \<le> j \<Longrightarrow> j < n \<Longrightarrow> P j t \<Longrightarrow> body j t = Inr t' \<Longrightarrow> P (j + 1) t'"
  shows "P (max i n) s'"
  using assms
proof (induction i n body s rule: for_loop.induct)
  case (1 i n body s)
  show ?case
  proof (cases "i < n")
    case True
    with "1.prems"(1) obtain t where t: "body i s = Inr t" and rest: "for_loop (i + 1) n body t = Inr s'"
      by (auto simp add: for_loop_step split: sum.splits)
    have "P (i + 1) t" using "1.prems"(3) [OF _ True "1.prems"(2) t] by simp
    from "1.IH" [OF True t rest this] "1.prems"(3) True
    show ?thesis by (simp add: max_def)
  next
    case False
    with "1.prems" show ?thesis by (simp add: for_loop_done max_def)
  qed
qed

lemma for_loop_total:
  assumes "P i s"
    and "\<And>j t. i \<le> j \<Longrightarrow> j < n \<Longrightarrow> P j t \<Longrightarrow> \<exists>t'. body j t = Inr t' \<and> P (j + 1) t'"
  shows "\<exists>s'. for_loop i n body s = Inr s' \<and> P (max i n) s'"
  using assms
proof (induction i n body s rule: for_loop.induct)
  case (1 i n body s)
  show ?case
  proof (cases "i < n")
    case True
    from "1.prems"(2) [OF _ True "1.prems"(1)] obtain t where t: "body i s = Inr t" and P: "P (i + 1) t"
      by auto
    from "1.IH" [OF True t P] "1.prems"(2) True
    obtain s' where "for_loop (i + 1) n body t = Inr s'" "P (max (i + 1) n) s'" by force
    with True t show ?thesis by (simp add: for_loop_step max_def)
  next
    case False
    with "1.prems" show ?thesis by (simp add: for_loop_done max_def)
  qed
qed

lemma for_loop_related:
  assumes "R i s1 s2"
    and "\<And>j t1 t2. i \<le> j \<Longrightarrow> j < n \<Longrightarrow> R j t1 t2 \<Longrightarrow>
           rel_sum (=) (R (j + 1)) (body1 j t1) (body2 j t2)"
  shows "rel_sum (=) (R (max i n)) (for_loop i n body1 s1) (for_loop i n body2 s2)"
  using assms
proof (induction i n body1 s1 arbitrary: s2 rule: for_loop.induct)
  case (1 i n body1 s1)
  show ?case
  proof (cases "i < n")
    case False
    with "1.prems"(1) show ?thesis by (simp add: for_loop_done max_def)
  next
    case True
    from "1.prems"(2) [OF _ True "1.prems"(1)]
    have r: "rel_sum (=) (R (i + 1)) (body1 i s1) (body2 i s2)" by simp
    show ?thesis
    proof (cases "body1 i s1")
      case (Inl e)
      with r have "body2 i s2 = Inl e" by (cases "body2 i s2") auto
      with Inl True show ?thesis by (simp add: for_loop_step)
    next
      case (Inr t1)
      with r obtain t2 where t2: "body2 i s2 = Inr t2" and R: "R (i + 1) t1 t2"
        by (cases "body2 i s2") auto
      have "rel_sum (=) (R (max (i + 1) n)) (for_loop (i + 1) n body1 t1) (for_loop (i + 1) n body2 t2)"
        by (rule "1.IH" [OF True Inr R]) (use "1.prems"(2) in simp)
      with True Inr t2 show ?thesis by (simp add: for_loop_step max_def)
    qed
  qed
qed

lemma c_int_Inr:
  "c_int x = Inr y \<longleftrightarrow> int_ok x \<and> y = x"
  by (auto simp add: c_int_def)

lemma c_mul_add_Inr:
  "c_mul_add a b c = Inr y \<longleftrightarrow> int_ok (a * b) \<and> int_ok (a * b + c) \<and> y = a * b + c"
  by (auto simp add: c_mul_add_def c_int_def)

lemma c_int_ok:
  "int_ok x \<Longrightarrow> c_int x = Inr x"
  by (simp add: c_int_def)

lemma c_mul_add_ok:
  "int_ok (a * b) \<Longrightarrow> int_ok (a * b + c) \<Longrightarrow> c_mul_add a b c = Inr (a * b + c)"
  by (simp add: c_mul_add_def c_int_def)

lemma int_ok_between:
  "int_ok a \<Longrightarrow> int_ok b \<Longrightarrow> a \<le> x \<Longrightarrow> x \<le> b \<Longrightarrow> int_ok x"
  by (simp add: int_ok_def)

lemma load_Inr:
  "load a i = Inr v \<longleftrightarrow> 0 \<le> i \<and> i < int (length a) \<and> v = a ! nat i"
  by (auto simp add: load_def)

lemma store_Inr:
  "store a i v = Inr a' \<longleftrightarrow> 0 \<le> i \<and> i < int (length a) \<and> a' = a[nat i := v]"
  by (auto simp add: store_def)

lemma add_to_Inr:
  "add_to a i d = Inr a' \<longleftrightarrow> 0 \<le> i \<and> i < int (length a) \<and> a' = a[nat i := a ! nat i + d]"
  by (auto simp add: add_to_def load_def store_def)

lemma allocate_array_Some:
  "allocate_array L n = Some a \<Longrightarrow> 0 \<le> n \<and> malloc_ok L n \<and> int (length a) = n"
  by (auto simp add: allocate_array_def split: if_splits)

lemma random_int_range:
  assumes "random_int L n g = Inr (s, g')" and "0 < n"
  shows "0 \<le> s \<and> s < n"
  using assms
  by (auto simp add: random_int_def smod_int_alt_def sgn_if split: prod.splits if_splits)

lemma random_int_total:
  assumes "0 < n"
  shows "\<exists>s g'. random_int L n g = Inr (s, g')"
  using assms by (auto simp add: random_int_def split: prod.splits)

lemma random_int_returns:
  assumes "n \<noteq> 0"
  shows "\<exists>s g'. random_int L n g = Inr (s, g')"
  using assms by (cases "rand L g") (simp add: random_int_def)

subsection \<open>Evaluation at concrete inputs\<close>

lemmas bootstrap_eval =
  moving_block_bootstrap_def seed_once_def allocate_array_def Let_def upt_conv_Cons
  bootstrap_rows.simps fill_row.simps random_int_def smod_int_alt_def copy_block.simps
  load_def store_def lcg_def fresh_def c_int_def c_mul_add_def int_ok_def

lemmas simulation_eval =
  monte_carlo_simulation_def monte_carlo_simulation_paths_def mc_iteration_def
  mc_path_iteration_def compound_def compound_path_def for_loop.simps
  allocate_prices_def allocate_array_def Let_def upt_conv_Cons random_int_def smod_int_alt_def
  load_def store_def lcg_def c_int_def c_mul_add_def int_ok_def inf_times_def

lemmas optimizer_eval =
  optimize_portfolio_newton_raphson_def newton_loop.simps newton_round_def line_search.simps
  ls_attempt_def move_def clamp_def rescale_def solve_diagonal_def clear_row_def clear_cell_def
  differentiate_def add_square_def copy_weight_def add_to_def load_cell_def store_cell_def
  allocate_matrix_def allocate_array_def negative_sharpe_ratio_def calculate_sharpe_ratio_def
  calculate_portfolio_returns_def portfolio_value_def weighted_term_def accumulate_def
  for_loop.simps load_def store_def Let_def upt_conv_Cons lcg_def c_int_def c_mul_add_def
  int_ok_def

subsection \<open>Seeding\<close>

lemma seed_once_calls:
  "srand_calls (seed_once L seed st) =
     (if seed > 0 \<and> \<not> seed_set st then srand_calls st @ [seed] else srand_calls st)"
  by (simp add: seed_once_def)

lemma seed_once_set:
  "seed_set (seed_once L seed st) = (seed_set st \<or> seed > 0)"
  by (auto simp add: seed_once_def)

lemma moving_block_bootstrap_state:
  assumes "moving_block_bootstrap L st log_returns n_returns n_bootstrap sample_size block_size seed
             = Some (r, st')"
  shows "seed_set st' = seed_set (seed_once L seed st)
       \<and> srand_calls st' = srand_calls (seed_once L seed st)"
  using assms
  by (auto simp add: moving_block_bootstrap_def Let_def
           split: if_splits option.splits sum.splits prod.splits)

lemma run_call_state:
  assumes "run_call L st c = Some st'"
  shows "seed_set st' = (seed_set st \<or> seeds_requested [c] \<noteq> [])
       \<and> srand_calls st' = (if seed_set st then srand_calls st
                             else srand_calls st @ seeds_requested [c])"
proof (cases c)
  case (Bootstrap log_returns n_returns n_bootstrap sample_size block_size seed)
  with assms obtain r where
    "moving_block_bootstrap L st log_returns n_returns n_bootstrap sample_size block_size seed
       = Some (r, st')"
    by auto
  from moving_block_bootstrap_state [OF this] Bootstrap show ?thesis
    by (simp add: seed_once_calls seed_once_set)
next
  case (Simulate S0 bootstrap_samples n_bootstrap sample_size iterations)
  with assms show ?thesis by (auto split: sum.splits)
next
  case (SimulatePaths S0 bootstrap_samples n_bootstrap sample_size iterations seed)
  with assms show ?thesis by (auto split: sum.splits)
qed

lemma seeds_requested_Cons: "seeds_requested (c # cs) = seeds_requested [c] @ seeds_requested cs"
  by (cases c) auto

lemma run_calls_seeded:
  assumes "run_calls L st calls = Some st'" and "seed_set st"
  shows "seed_set st' \<and> srand_calls st' = srand_calls st"
  using assms
proof (induction calls arbitrary: st)
  case Nil
  then show ?case by simp
next
  case (Cons c cs)
  then obtain st1 where c: "run_call L st c = Some st1" and cs: "run_calls L st1 cs = Some st'"
    by (auto split: option.splits)
  from run_call_state [OF c] Cons.prems(2)
  have "seed_set st1" and "srand_calls st1 = srand_calls st" by auto
  with Cons.IH [OF cs] show ?case by simp
qed

lemma run_calls_unseeded:
  assumes "run_calls L st calls = Some st'" and "\<not> seed_set st"
  shows "srand_calls st' = srand_calls st @ take 1 (seeds_requested calls)
       \<and> seed_set st' = (seeds_requested calls \<noteq> [])"
  using assms
proof (induction calls arbitrary: st)
  case Nil
  then show ?case by simp
next
  case (Cons c cs)
  then obtain st1 where c: "run_call L st c = Some st1" and cs: "run_calls L st1 cs = Some st'"
    by (auto split: option.splits)
  note st1 = run_call_state [OF c]
  show ?case
  proof (cases "seeds_requested [c] = []")
    case True
    with st1 Cons.prems(2) have "\<not> seed_set st1" "srand_calls st1 = srand_calls st" by auto
    with Cons.IH [OF cs] True show ?thesis
      by (subst (1 2) seeds_requested_Cons) simp
  next
    case False
    then obtain s where s: "seeds_requested [c] = [s]"
      by (cases c) (auto split: if_splits)
    with st1 Cons.prems(2) have "seed_set st1" "srand_calls st1 = srand_calls st @ [s]" by auto
    with run_calls_seeded [OF cs] s show ?thesis
      by (subst (1 2) seeds_requested_Cons) simp
  qed
qed

text \<open>
  Claim C7. Take any sequence of calls that a process makes, starting unseeded, each of
  which returns. The calls to \<^verbatim>\<open>srand\<close> made so far are the first positive seed
  that a call to \<^verbatim>\<open>moving_block_bootstrap\<close> asked for, and nothing else: there is at
  most one seeding, a seed \<open>\<le> 0\<close> never seeds, and no later call seeds again. The second
  part is the seeding step of one more call, which need not return.
\<close>

theorem seeded_at_most_once:
  assumes "run_calls L st0 calls = Some st" and "\<not> seed_set st0" and "srand_calls st0 = []"
  shows "srand_calls st = take 1 (seeds_requested calls)
       \<and> srand_calls (seed_once L seed st) = take 1 (seeds_requested calls @ [s \<leftarrow> [seed]. s > 0])"
  using run_calls_unseeded [OF assms(1,2)] assms(3)
  by (cases "seeds_requested calls") (auto simp add: seed_once_calls)

theorem seeded_at_most_once_witness:
  "run_calls lcg fresh
     [Bootstrap [1, 2, 3] 3 2 4 2 0, Bootstrap [1, 2, 3] 3 100 6 5 42, Bootstrap [1, 2, 3] 3 2 4 2 7]
     = Some \<lparr>seed_set = True, gen = 1668674806, srand_calls = [42]\<rparr>
   \<and> \<not> seed_set fresh \<and> srand_calls fresh = []
   \<and> srand_calls \<lparr>seed_set = True, gen = 1668674806, srand_calls = [42]\<rparr> = [42]
   \<and> srand_calls (seed_once lcg 9 \<lparr>seed_set = True, gen = 1668674806, srand_calls = [42]\<rparr>) = [42]"
proof -
  have run: "run_calls lcg fresh
     [Bootstrap [1, 2, 3] 3 2 4 2 0, Bootstrap [1, 2, 3] 3 100 6 5 42, Bootstrap [1, 2, 3] 3 2 4 2 7]
     = Some \<lparr>seed_set = True, gen = 1668674806, srand_calls = [42]\<rparr>"
    by (simp add: bootstrap_eval)
  have unseeded: "\<not> seed_set fresh" and empty: "srand_calls fresh = []"
    by (simp_all add: fresh_def)
  from seeded_at_most_once [OF run unseeded empty, of 9] run unseeded empty
  show ?thesis by simp
qed

text \<open>
  Claim C9. The seeding step comes before the validation of the block size. A call with a
  positive seed on an unseeded process that fails the validation returns no samples, and
  it has seeded all the same: the generator is the one built by \<^verbatim>\<open>srand\<close> and the flag is
  set. Any later call that returns, whatever its seed, leaves the record of seedings as it
  is.
\<close>

theorem seeding_precedes_validation:
  assumes "seed > 0" and "\<not> seed_set st" and "n_returns < block_size"
  shows "moving_block_bootstrap L st log_returns n_returns n_bootstrap sample_size block_size seed
           = Some (Inl InvalidInput,
                   st\<lparr>gen := srand L seed, srand_calls := srand_calls st @ [seed], seed_set := True\<rparr>)
       \<and> (moving_block_bootstrap L
             (st\<lparr>gen := srand L seed, srand_calls := srand_calls st @ [seed], seed_set := True\<rparr>)
             log_returns' n_returns' n_bootstrap' sample_size' block_size' seed' = Some (r, st')
           \<longrightarrow> seed_set st' \<and> srand_calls st' = srand_calls st @ [seed])"
proof -
  let ?st1 = "st\<lparr>gen := srand L seed, srand_calls := srand_calls st @ [seed], seed_set := True\<rparr>"
  have first: "seed_once L seed st = ?st1"
    using assms(1,2) by (simp add: seed_once_def)
  have later: "seed_once L seed' ?st1 = ?st1"
    by (simp add: seed_once_def)
  show ?thesis
    using assms(3) first later
      moving_block_bootstrap_state [of L ?st1 log_returns' n_returns' n_bootstrap' sample_size'
        block_size' seed' r st']
    by (auto simp add: moving_block_bootstrap_def Let_def)
qed

theorem seeding_precedes_validation_witness:
  "(42::int) > 0 \<and> \<not> seed_set fresh \<and> (3::int) < 5
   \<and> moving_block_bootstrap lcg fresh [1, 2, 3] 3 100 6 5 42
       = Some (Inl InvalidInput, \<lparr>seed_set = True, gen = 42, srand_calls = [42]\<rparr>)
   \<and> moving_block_bootstrap lcg \<lparr>seed_set = True, gen = 42, srand_calls = [42]\<rparr>
         [1, 2, 3] 3 2 4 2 7
       = Some (Inr [2, 3, 1, 2, 2, 3, 1, 2],
               \<lparr>seed_set = True, gen = 1668674806, srand_calls = [42]\<rparr>)"
proof -
  have later: "moving_block_bootstrap lcg
         (fresh\<lparr>gen := srand lcg 42, srand_calls := srand_calls fresh @ [42], seed_set := True\<rparr>)
         [1, 2, 3] 3 2 4 2 7
       = Some (Inr [2, 3, 1, 2, 2, 3, 1, 2],
               \<lparr>seed_set = True, gen = 1668674806, srand_calls = [42]\<rparr>)"
    by (simp add: bootstrap_eval)
  have h: "(42::int) > 0" "\<not> seed_set fresh" "(3::int) < 5"
    by (simp_all add: fresh_def)
  from seeding_precedes_validation [OF h, of lcg "[1, 2, 3]" 100 6 "[1, 2, 3]" 3 2 4 2 7
        "Inr [2, 3, 1, 2, 2, 3, 1, 2]" "\<lparr>seed_set = True, gen = 1668674806, srand_calls = [42]\<rparr>"]
    later h
  show ?thesis by (simp add: lcg_def fresh_def)
qed

subsection \<open>Validation of the block size\<close>

text \<open>
  Claim C6. When the block is longer than the series, \<^verbatim>\<open>moving_block_bootstrap\<close> returns
  \<^verbatim>\<open>NULL\<close> for the reason \<open>InvalidInput\<close>: there is no sample set. The call returns
  (the result is \<open>Some\<close>), and the random state is the one left by the seeding step.
\<close>

theorem invalid_input:
  assumes "block_size > n_returns"
  shows "moving_block_bootstrap L st log_returns n_returns n_bootstrap sample_size block_size seed
           = Some (Inl InvalidInput, seed_once L seed st)"
  using assms by (simp add: moving_block_bootstrap_def Let_def)

theorem invalid_input_witness:
  "(5::int) > 3 \<and>
   moving_block_bootstrap lcg fresh [1, 2, 3] 3 100 6 5 42
     = Some (Inl InvalidInput, \<lparr>seed_set = True, gen = 42, srand_calls = [42]\<rparr>)"
  using invalid_input [of 3 5 lcg fresh "[1, 2, 3]" 100 6 42]
  by (simp add: seed_once_def lcg_def fresh_def)

subsection \<open>Rows of the bootstrap\<close>

lemma copy_block_done:
  "\<not> (i < block_size \<and> sample_idx < sample_size) \<Longrightarrow>
     copy_block log_returns block_start block_size sample_size bootstrap_idx i sample_idx samples
       = Inr (sample_idx, samples)"
  by (subst copy_block.simps) auto

lemma copy_block_step:
  "i < block_size \<Longrightarrow> sample_idx < sample_size \<Longrightarrow>
     copy_block log_returns block_start block_size sample_size bootstrap_idx i sample_idx samples
       = (case c_int (block_start + i) of
            Inl e \<Rightarrow> Inl e
          | Inr src \<Rightarrow>
         (case load log_returns src of
            Inl e \<Rightarrow> Inl e
          | Inr v \<Rightarrow>
         (case c_mul_add bootstrap_idx sample_size sample_idx of
            Inl e \<Rightarrow> Inl e
          | Inr dst \<Rightarrow>
         (case store samples dst v of
            Inl e \<Rightarrow> Inl e
          | Inr samples' \<Rightarrow>
              copy_block log_returns block_start block_size sample_size bootstrap_idx
                (i + 1) (sample_idx + 1) samples'))))"
  by (subst copy_block.simps) simp

lemma copy_block_copies:
  assumes "copy_block log_returns block_start block_size sample_size bootstrap_idx i sample_idx samples
             = Inr (sample_idx', samples')"
    and "0 \<le> block_start + i" and "0 \<le> bootstrap_idx * sample_size + sample_idx"
  shows "length samples' = length samples
       \<and> sample_idx' - sample_idx = max 0 (min (block_size - i) (sample_size - sample_idx))
       \<and> take (nat (bootstrap_idx * sample_size + sample_idx')) samples'
           = take (nat (bootstrap_idx * sample_size + sample_idx)) samples
             @ take (nat (sample_idx' - sample_idx)) (drop (nat (block_start + i)) log_returns)
       \<and> drop (nat (bootstrap_idx * sample_size + sample_idx')) samples'
           = drop (nat (bootstrap_idx * sample_size + sample_idx')) samples"
  using assms
proof (induction log_returns block_start block_size sample_size bootstrap_idx i sample_idx samples
         rule: copy_block.induct)
  case (1 log_returns block_start block_size sample_size bootstrap_idx i sample_idx samples)
  let ?base = "bootstrap_idx * sample_size"
  show ?case
  proof (cases "i < block_size \<and> sample_idx < sample_size")
    case False
    with "1.prems"(1) have "sample_idx' = sample_idx" "samples' = samples"
      by (simp_all add: copy_block_done)
    with False show ?thesis by auto
  next
    case True
    with "1.prems"(1) obtain src v dst samples1 where
      ci: "c_int (block_start + i) = Inr src"
      and ld0: "load log_returns src = Inr v"
      and cm: "c_mul_add bootstrap_idx sample_size sample_idx = Inr dst"
      and st0: "store samples dst v = Inr samples1"
      and rest: "copy_block log_returns block_start block_size sample_size bootstrap_idx
                   (i + 1) (sample_idx + 1) samples1 = Inr (sample_idx', samples')"
      by (auto simp add: copy_block_step split: sum.splits)
    from ci ld0 have ld: "load log_returns (block_start + i) = Inr v"
      by (simp add: c_int_Inr)
    from cm st0 have st: "store samples (?base + sample_idx) v = Inr samples1"
      by (simp add: c_mul_add_Inr)
    from ld "1.prems"(2) have src: "nat (block_start + i) < length log_returns"
      and v: "v = log_returns ! nat (block_start + i)"
      by (auto simp add: load_Inr)
    from st "1.prems"(3) have dst: "nat (?base + sample_idx) < length samples"
      and s1: "samples1 = samples[nat (?base + sample_idx) := v]"
      by (auto simp add: store_Inr)
    from True have T: "i < block_size" "sample_idx < sample_size" by simp_all
    have ih: "length samples' = length samples1
       \<and> sample_idx' - (sample_idx + 1)
           = max 0 (min (block_size - (i + 1)) (sample_size - (sample_idx + 1)))
       \<and> take (nat (?base + sample_idx')) samples'
           = take (nat (?base + (sample_idx + 1))) samples1
             @ take (nat (sample_idx' - (sample_idx + 1))) (drop (nat (block_start + (i + 1))) log_returns)
       \<and> drop (nat (?base + sample_idx')) samples' = drop (nat (?base + sample_idx')) samples1"
      using "1.IH" [OF True ci ld0 cm st0 rest] "1.prems"(2,3) by simp
    from ih T have adv: "sample_idx + 1 \<le> sample_idx'" by linarith
    have n1: "nat (?base + (sample_idx + 1)) = Suc (nat (?base + sample_idx))"
      using "1.prems"(3) by simp
    have n2: "nat (block_start + (i + 1)) = Suc (nat (block_start + i))"
      using "1.prems"(2) by simp
    have n3: "nat (sample_idx' - sample_idx) = Suc (nat (sample_idx' - (sample_idx + 1)))"
      using adv by simp
    have t1: "take (Suc (nat (?base + sample_idx))) samples1
                = take (nat (?base + sample_idx)) samples @ [v]"
      using dst s1 by (simp add: take_Suc_conv_app_nth)
    have t2: "v # take (nat (sample_idx' - (sample_idx + 1))) (drop (Suc (nat (block_start + i))) log_returns)
                = take (nat (sample_idx' - sample_idx)) (drop (nat (block_start + i)) log_returns)"
      using src v n3 by (simp add: Cons_nth_drop_Suc [symmetric])
    have t3: "drop (nat (?base + sample_idx')) samples1 = drop (nat (?base + sample_idx')) samples"
      using s1 adv "1.prems"(3) by (simp add: drop_update_cancel)
    from ih have "take (nat (?base + sample_idx')) samples'
        = take (nat (?base + sample_idx)) samples
          @ take (nat (sample_idx' - sample_idx)) (drop (nat (block_start + i)) log_returns)"
      by (simp add: n1 n2 t1 t2 [symmetric])
    moreover from ih T have
      "sample_idx' - sample_idx = max 0 (min (block_size - i) (sample_size - sample_idx))"
      by linarith
    ultimately show ?thesis using ih s1 t3 by simp
  qed
qed

lemma append_block:
  assumes "d = max 0 (min block_size r)" and "0 \<le> r"
    and "length (block log_returns block_size s) = nat block_size"
  shows "take (nat d) (drop (nat s) log_returns) @ take (nat (r - d)) rest
           = take (nat r) (block log_returns block_size s @ rest)"
proof -
  let ?D = "drop (nat s) log_returns"
  have b: "block log_returns block_size s = take (nat block_size) ?D" by (simp add: block_def)
  consider "block_size \<le> 0" | "0 < block_size" "block_size \<le> r" | "r < block_size" "0 < block_size"
    by linarith
  then show ?thesis
  proof cases
    case 1
    with assms have "d = 0" by auto
    with 1 show ?thesis by (simp add: b)
  next
    case 2
    with assms have d: "d = block_size" by auto
    have "nat (r - block_size) = nat r - nat block_size"
      using 2 by (simp add: nat_diff_distrib)
    moreover from 2 have "nat block_size \<le> nat r" by simp
    ultimately show ?thesis using assms(3) by (simp add: d b min_absorb2 del: nat_le_eq_zle)
  next
    case 3
    with assms have d: "d = r" by auto
    from 3 assms(2) have "nat r \<le> nat block_size" by simp
    with assms(3) show ?thesis by (simp add: d b min_def)
  qed
qed

lemma block_length:
  assumes "0 \<le> s" and "s < int (length log_returns) - block_size + 1"
  shows "length (block log_returns block_size s) = nat block_size"
  using assms by (auto simp add: block_def)

lemma filled_done:
  "filled log_returns n_blocks block_size sample_size bootstrap_idx sample_size samples samples"
  unfolding filled_def by (intro conjI exI [of _ "[]"]) auto

lemma filled_step:
  assumes c: "copy_block log_returns s block_size sample_size bootstrap_idx 0 sample_idx samples
                = Inr (sample_idx1, samples1)"
    and f: "filled log_returns n_blocks block_size sample_size bootstrap_idx sample_idx1 samples1 samples'"
    and s: "0 \<le> s" "s < n_blocks" "n_blocks = int (length log_returns) - block_size + 1"
    and i: "0 \<le> sample_idx" "sample_idx < sample_size" "0 \<le> bootstrap_idx * sample_size"
  shows "filled log_returns n_blocks block_size sample_size bootstrap_idx sample_idx samples samples'"
proof -
  let ?base = "bootstrap_idx * sample_size"
  from copy_block_copies [OF c] s(1) i have
    len: "length samples1 = length samples"
    and adv: "sample_idx1 - sample_idx = max 0 (min block_size (sample_size - sample_idx))"
    and tk: "take (nat (?base + sample_idx1)) samples1
               = take (nat (?base + sample_idx)) samples
                 @ take (nat (sample_idx1 - sample_idx)) (drop (nat s) log_returns)"
    and dr: "drop (nat (?base + sample_idx1)) samples1 = drop (nat (?base + sample_idx1)) samples"
    by simp_all
  from adv i have bounds: "sample_idx \<le> sample_idx1" "sample_idx1 \<le> sample_size" by linarith+
  from f obtain starts where
    len': "length samples' = length samples1"
    and dr': "drop (nat (?base + sample_size)) samples' = drop (nat (?base + sample_size)) samples1"
    and rng: "\<forall>s \<in> set starts. 0 \<le> s \<and> s < n_blocks"
    and cnt: "1 \<le> block_size \<longrightarrow> int (length starts) * block_size < sample_size - sample_idx1 + block_size"
    and tk': "take (nat (?base + sample_size)) samples'
               = take (nat (?base + sample_idx1)) samples1
                 @ take (nat (sample_size - sample_idx1))
                     (concat (map (block log_returns block_size) starts))"
    by (auto simp add: filled_def)
  have "drop (nat (?base + sample_size)) samples1 = drop (nat (?base + sample_size)) samples"
  proof -
    have "nat (?base + sample_size) = nat (sample_size - sample_idx1) + nat (?base + sample_idx1)"
      using bounds i by (simp add: nat_add_distrib [symmetric])
    then show ?thesis using dr by (metis drop_drop)
  qed
  with dr' have d: "drop (nat (?base + sample_size)) samples' = drop (nat (?base + sample_size)) samples"
    by simp
  have bl: "length (block log_returns block_size s) = nat block_size"
    using s by (intro block_length) auto
  have r: "sample_size - sample_idx1 = (sample_size - sample_idx) - (sample_idx1 - sample_idx)" by simp
  have "take (nat (sample_idx1 - sample_idx)) (drop (nat s) log_returns)
          @ take (nat (sample_size - sample_idx1)) (concat (map (block log_returns block_size) starts))
        = take (nat (sample_size - sample_idx))
            (block log_returns block_size s @ concat (map (block log_returns block_size) starts))"
    unfolding r by (rule append_block [OF adv _ bl]) (use i in simp)
  with tk tk' have t: "take (nat (?base + sample_size)) samples'
        = take (nat (?base + sample_idx)) samples
          @ take (nat (sample_size - sample_idx))
              (concat (map (block log_returns block_size) (s # starts)))"
    by simp
  have c': "1 \<le> block_size \<longrightarrow>
             int (length (s # starts)) * block_size < sample_size - sample_idx + block_size"
  proof
    assume b: "1 \<le> block_size"
    with cnt have "int (length starts) * block_size < sample_size - sample_idx1 + block_size" by simp
    moreover have "int (length (s # starts)) * block_size = int (length starts) * block_size + block_size"
      by (simp add: distrib_right)
    moreover from adv b i have "sample_idx1 - sample_idx = min block_size (sample_size - sample_idx)"
      by simp
    ultimately show "int (length (s # starts)) * block_size < sample_size - sample_idx + block_size"
    proof (cases "block_size \<le> sample_size - sample_idx")
      case True
      with \<open>sample_idx1 - sample_idx = min block_size (sample_size - sample_idx)\<close>
      have "sample_idx1 = sample_idx + block_size" by simp
      with \<open>int (length starts) * block_size < sample_size - sample_idx1 + block_size\<close>
        \<open>int (length (s # starts)) * block_size = int (length starts) * block_size + block_size\<close>
      show ?thesis by simp
    next
      case False
      with \<open>sample_idx1 - sample_idx = min block_size (sample_size - sample_idx)\<close>
      have "sample_idx1 = sample_size" by simp
      with \<open>int (length starts) * block_size < sample_size - sample_idx1 + block_size\<close> b
      have "int (length starts) * block_size < 1 * block_size" by simp
      with b have "int (length starts) < 1" using mult_less_cancel_right [of "int (length starts)" block_size 1]
        by simp
      then have "starts = []" by simp
      with i show ?thesis by simp
    qed
  qed
  from rng s have "\<forall>x \<in> set (s # starts). 0 \<le> x \<and> x < n_blocks" by simp
  with len len' d t c' show ?thesis
    unfolding filled_def by (intro conjI exI [of _ "s # starts"]) simp_all
qed

lemma fill_row_filled:
  assumes "fill_row L log_returns n_blocks block_size sample_size bootstrap_idx sample_idx samples g
             = Some (Inr (samples', g'))"
    and "0 \<le> sample_idx" and "sample_idx \<le> sample_size" and "0 \<le> bootstrap_idx * sample_size"
    and "0 < n_blocks" and "n_blocks = int (length log_returns) - block_size + 1"
  shows "filled log_returns n_blocks block_size sample_size bootstrap_idx sample_idx samples samples'"
proof -
  define P where "P = (\<lambda>(L :: 'a libc) log_returns n_blocks block_size sample_size bootstrap_idx
      sample_idx samples (g :: 'a) (y :: error + real list \<times> 'a).
      \<forall>samples' g'. y = Inr (samples', g') \<longrightarrow> 0 \<le> sample_idx \<longrightarrow> sample_idx \<le> sample_size
        \<longrightarrow> 0 \<le> bootstrap_idx * sample_size \<longrightarrow> 0 < n_blocks
        \<longrightarrow> n_blocks = int (length log_returns) - block_size + 1
        \<longrightarrow> filled log_returns n_blocks block_size sample_size bootstrap_idx sample_idx samples samples')"
  have "P L log_returns n_blocks block_size sample_size bootstrap_idx sample_idx samples g
          (Inr (samples', g'))"
  proof (rule fill_row.raw_induct [where P = P, OF _ assms(1)], goal_cases)
    case (1 rec L log_returns n_blocks block_size sample_size bootstrap_idx sample_idx samples g y)
    show ?case
      unfolding P_def
    proof (intro allI impI)
      fix samples' g'
      assume y: "y = Inr (samples', g')" and i: "0 \<le> sample_idx" "sample_idx \<le> sample_size"
        and b: "0 \<le> bootstrap_idx * sample_size" and n: "0 < n_blocks"
        "n_blocks = int (length log_returns) - block_size + 1"
      show "filled log_returns n_blocks block_size sample_size bootstrap_idx sample_idx samples samples'"
      proof (cases "sample_idx < sample_size")
        case False
        with 1(2) y i have "samples' = samples" "sample_idx = sample_size" by auto
        then show ?thesis by (simp add: filled_done)
      next
        case True
        with 1(2) y obtain s g1 sample_idx1 samples1 where
          r: "random_int L n_blocks g = Inr (s, g1)"
          and c: "copy_block log_returns s block_size sample_size bootstrap_idx 0 sample_idx samples
                    = Inr (sample_idx1, samples1)"
          and rest: "rec L log_returns n_blocks block_size sample_size bootstrap_idx sample_idx1
                       samples1 g1 = Some (Inr (samples', g'))"
          by (auto split: sum.splits prod.splits)
        from random_int_range [OF r n(1)] have s: "0 \<le> s" "s < n_blocks" by simp_all
        from copy_block_copies [OF c] s(1) i b
        have "sample_idx1 - sample_idx = max 0 (min block_size (sample_size - sample_idx))" by simp
        with i True have "0 \<le> sample_idx1" "sample_idx1 \<le> sample_size" by linarith+
        with 1(1) [OF rest] b n have
          "filled log_returns n_blocks block_size sample_size bootstrap_idx sample_idx1 samples1 samples'"
          by (simp add: P_def)
        from filled_step [OF c this s n(2) i(1) True b] show ?thesis .
      qed
    qed
  qed
  with assms(2-) show ?thesis by (simp add: P_def)
qed

lemma bootstrap_rows_done:
  "\<not> bootstrap_idx < n_bootstrap \<Longrightarrow>
     bootstrap_rows L log_returns n_blocks block_size sample_size n_bootstrap bootstrap_idx samples g
       = Some (Inr (samples, g))"
  by (subst bootstrap_rows.simps) simp

lemma bootstrap_rows_step:
  "bootstrap_idx < n_bootstrap \<Longrightarrow>
     bootstrap_rows L log_returns n_blocks block_size sample_size n_bootstrap bootstrap_idx samples g
       = (case fill_row L log_returns n_blocks block_size sample_size bootstrap_idx 0 samples g of
            None \<Rightarrow> None
          | Some (Inl e) \<Rightarrow> Some (Inl e)
          | Some (Inr (samples', g')) \<Rightarrow>
              bootstrap_rows L log_returns n_blocks block_size sample_size n_bootstrap
                (bootstrap_idx + 1) samples' g')"
  by (subst bootstrap_rows.simps) simp

lemma row_cong:
  assumes "take (nat (b * sample_size + sample_size)) xs = take (nat (b * sample_size + sample_size)) ys"
    and "0 \<le> b * sample_size" and "0 \<le> sample_size"
  shows "row xs sample_size b = row ys sample_size b"
proof -
  have "nat (b * sample_size + sample_size) = nat sample_size + nat (b * sample_size)"
    using assms(2,3) by (simp add: nat_add_distrib)
  with assms(1) show ?thesis by (simp add: row_def take_drop)
qed

lemma filled_row:
  assumes f: "filled log_returns n_blocks block_size sample_size b 0 samples samples'"
    and "0 \<le> b * sample_size" and "0 \<le> sample_size"
    and "b * sample_size + sample_size \<le> int (length samples)"
  shows "resampled log_returns n_blocks block_size sample_size (row samples' sample_size b)
       \<and> take (nat (b * sample_size)) samples' = take (nat (b * sample_size)) samples"
proof -
  let ?n = "nat (b * sample_size)" and ?m = "nat sample_size"
  from f obtain starts where
    len: "length samples' = length samples"
    and rng: "\<forall>s \<in> set starts. 0 \<le> s \<and> s < n_blocks"
    and cnt: "1 \<le> block_size \<longrightarrow> int (length starts) * block_size < sample_size + block_size"
    and tk: "take (nat (b * sample_size + sample_size)) samples'
               = take ?n samples @ take ?m (concat (map (block log_returns block_size) starts))"
    by (auto simp add: filled_def)
  let ?seg = "take ?m (concat (map (block log_returns block_size) starts))"
  have nm: "nat (b * sample_size + sample_size) = ?m + ?n"
    using assms(2,3) by (simp add: nat_add_distrib)
  have le: "?m + ?n \<le> length samples"
    using assms(2-4) by (simp add: nat_add_distrib [symmetric] nat_le_iff)
  have la: "length (take ?n samples) = ?n" using le by simp
  have "length (take (?m + ?n) samples') = ?m + ?n" using le len by simp
  have ls: "length ?seg = ?m"
    using arg_cong [OF tk, of length] le len nm by (auto simp add: min_def split: if_splits)
  have "row samples' sample_size b = drop ?n (take (?m + ?n) samples')"
    by (simp add: row_def take_drop)
  also have "\<dots> = drop ?n (take ?n samples @ ?seg)" using tk nm by simp
  also have "\<dots> = ?seg" using la by simp
  finally have r: "row samples' sample_size b = ?seg" .
  have "take ?n samples' = take ?n (take (?m + ?n) samples')" by (simp add: min_def)
  also have "\<dots> = take ?n (take ?n samples @ ?seg)" using tk nm by simp
  also have "\<dots> = take ?n samples" using la by simp
  finally have "take ?n samples' = take ?n samples" .
  moreover have "resampled log_returns n_blocks block_size sample_size (row samples' sample_size b)"
    unfolding resampled_def r using ls rng cnt by (intro conjI exI [of _ starts]) simp_all
  ultimately show ?thesis by simp
qed

lemma rows_product_bound:
  assumes "b < n_bootstrap" and "0 \<le> sample_size" and "0 \<le> (b::int)"
  shows "b * sample_size + sample_size \<le> n_bootstrap * sample_size" and "0 \<le> b * sample_size"
proof -
  from assms have "(b + 1) * sample_size \<le> n_bootstrap * sample_size"
    by (intro mult_right_mono) auto
  then show "b * sample_size + sample_size \<le> n_bootstrap * sample_size"
    by (simp add: distrib_right)
  from assms show "0 \<le> b * sample_size" by simp
qed

lemma bootstrap_rows_resampled:
  assumes "bootstrap_rows L log_returns n_blocks block_size sample_size n_bootstrap b samples g
             = Some (Inr (samples', g'))"
    and "0 \<le> b" and "0 \<le> sample_size" and "0 < n_blocks"
    and "n_blocks = int (length log_returns) - block_size + 1"
    and "int (length samples) = n_bootstrap * sample_size"
  shows "length samples' = length samples
       \<and> take (nat (b * sample_size)) samples' = take (nat (b * sample_size)) samples
       \<and> (\<forall>b'. b \<le> b' \<and> b' < n_bootstrap \<longrightarrow>
             resampled log_returns n_blocks block_size sample_size (row samples' sample_size b'))"
  using assms
proof (induction L log_returns n_blocks block_size sample_size n_bootstrap b samples g
         rule: bootstrap_rows.induct)
  case (1 L log_returns n_blocks block_size sample_size n_bootstrap b samples g)
  show ?case
  proof (cases "b < n_bootstrap")
    case False
    with "1.prems"(1) show ?thesis by (auto simp add: bootstrap_rows_done)
  next
    case True
    with "1.prems"(1) obtain samples1 g1 where
      f: "fill_row L log_returns n_blocks block_size sample_size b 0 samples g
            = Some (Inr (samples1, g1))"
      and rest: "bootstrap_rows L log_returns n_blocks block_size sample_size n_bootstrap
                   (b + 1) samples1 g1 = Some (Inr (samples', g'))"
      by (auto simp add: bootstrap_rows_step split: option.splits sum.splits prod.splits)
    note pb = rows_product_bound [OF True "1.prems"(3,2)]
    from fill_row_filled [OF f _ "1.prems"(3) pb(2) "1.prems"(4,5)]
    have fl: "filled log_returns n_blocks block_size sample_size b 0 samples samples1" by simp
    then have l1: "length samples1 = length samples" by (simp add: filled_def)
    from pb "1.prems"(6) have "b * sample_size + sample_size \<le> int (length samples)" by simp
    from filled_row [OF fl pb(2) "1.prems"(3) this]
    have r1: "resampled log_returns n_blocks block_size sample_size (row samples1 sample_size b)"
      and t1: "take (nat (b * sample_size)) samples1 = take (nat (b * sample_size)) samples"
      by simp_all
    from "1.IH" [OF True f _ _ rest _ "1.prems"(3,4,5)] "1.prems"(2,6) l1
    have l': "length samples' = length samples1"
      and t': "take (nat ((b + 1) * sample_size)) samples' = take (nat ((b + 1) * sample_size)) samples1"
      and rs: "\<forall>b'. b + 1 \<le> b' \<and> b' < n_bootstrap \<longrightarrow>
                 resampled log_returns n_blocks block_size sample_size (row samples' sample_size b')"
      by simp_all
    have e: "(b + 1) * sample_size = b * sample_size + sample_size" by (simp add: distrib_right)
    from row_cong [OF t' [unfolded e] pb(2) "1.prems"(3)] r1
    have rb: "resampled log_returns n_blocks block_size sample_size (row samples' sample_size b)"
      by simp
    have "nat (b * sample_size) \<le> nat (b * sample_size + sample_size)"
      using "1.prems"(3) by simp
    then have "take (nat (b * sample_size)) samples'
                 = take (nat (b * sample_size)) (take (nat (b * sample_size + sample_size)) samples')"
      by (simp add: min_def)
    also have "\<dots> = take (nat (b * sample_size)) (take (nat (b * sample_size + sample_size)) samples1)"
      using t' e by simp
    also have "\<dots> = take (nat (b * sample_size)) samples1"
      using \<open>nat (b * sample_size) \<le> nat (b * sample_size + sample_size)\<close> by (simp add: min_def)
    finally have tb: "take (nat (b * sample_size)) samples' = take (nat (b * sample_size)) samples"
      using t1 by simp
    have "\<forall>b'. b \<le> b' \<and> b' < n_bootstrap \<longrightarrow>
            resampled log_returns n_blocks block_size sample_size (row samples' sample_size b')"
    proof (intro allI impI)
      fix b' assume "b \<le> b' \<and> b' < n_bootstrap"
      then consider "b' = b" | "b + 1 \<le> b' \<and> b' < n_bootstrap" by linarith
      then show "resampled log_returns n_blocks block_size sample_size (row samples' sample_size b')"
        using rb rs by cases auto
    qed
    with l' l1 tb show ?thesis by simp
  qed
qed

lemma copy_block_total:
  assumes "0 \<le> s" and "s + block_size \<le> int (length log_returns)" and "0 \<le> i"
    and "0 \<le> b * sample_size" and "0 \<le> sample_idx"
    and "b * sample_size + sample_size \<le> int (length samples)"
    and "int_ok (int (length log_returns))" and "int_ok (int (length samples))"
  shows "\<exists>sample_idx' samples'.
           copy_block log_returns s block_size sample_size b i sample_idx samples
             = Inr (sample_idx', samples')"
  using assms
proof (induction log_returns s block_size sample_size b i sample_idx samples
         rule: copy_block.induct)
  case (1 log_returns s block_size sample_size b i sample_idx samples)
  show ?case
  proof (cases "i < block_size \<and> sample_idx < sample_size")
    case False
    then show ?thesis by (simp add: copy_block_done)
  next
    case True
    with "1.prems" have ci: "c_int (s + i) = Inr (s + i)"
      by (intro c_int_ok) (simp add: int_ok_def)
    from True "1.prems" have
      cm: "c_mul_add b sample_size sample_idx = Inr (b * sample_size + sample_idx)"
      by (intro c_mul_add_ok) (simp_all add: int_ok_def)
    from True "1.prems" have ld: "load log_returns (s + i) = Inr (log_returns ! nat (s + i))"
      by (simp add: load_def)
    from True "1.prems" have
      st: "store samples (b * sample_size + sample_idx) (log_returns ! nat (s + i))
             = Inr (samples[nat (b * sample_size + sample_idx) := log_returns ! nat (s + i)])"
      by (simp add: store_def)
    from "1.IH" [OF True ci ld cm st] "1.prems"
    obtain sample_idx' samples' where
      "copy_block log_returns s block_size sample_size b (i + 1) (sample_idx + 1)
         (samples[nat (b * sample_size + sample_idx) := log_returns ! nat (s + i)])
         = Inr (sample_idx', samples')"
      by auto
    with True ci cm ld st show ?thesis by (simp add: copy_block_step)
  qed
qed

lemma fill_row_total:
  assumes "1 \<le> block_size" and "0 \<le> sample_idx" and "0 \<le> b * sample_size"
    and "b * sample_size + sample_size \<le> int (length samples)"
    and "0 < n_blocks" and "n_blocks = int (length log_returns) - block_size + 1"
    and "int_ok (int (length log_returns))" and "int_ok (int (length samples))"
  shows "\<exists>samples' g'.
           fill_row L log_returns n_blocks block_size sample_size b sample_idx samples g
             = Some (Inr (samples', g'))"
  using assms(2,4,8)
proof (induction "nat (sample_size - sample_idx)" arbitrary: sample_idx samples g rule: less_induct)
  case less
  show ?case
  proof (cases "sample_idx < sample_size")
    case False
    then show ?thesis by (subst fill_row.simps) simp
  next
    case True
    from random_int_total [OF assms(5), of L g] obtain s g1 where
      r: "random_int L n_blocks g = Inr (s, g1)" by blast
    from random_int_range [OF r assms(5)] have s: "0 \<le> s" "s < n_blocks" by simp_all
    with assms(6) have "s + block_size \<le> int (length log_returns)" by simp
    from copy_block_total [OF s(1) this _ assms(3) less.prems(1,2) assms(7) less.prems(3), of 0]
    obtain sample_idx1 samples1 where
      c: "copy_block log_returns s block_size sample_size b 0 sample_idx samples
            = Inr (sample_idx1, samples1)"
      by auto
    from copy_block_copies [OF c] s(1) less.prems(1) assms(3)
    have l1: "length samples1 = length samples"
      and adv: "sample_idx1 - sample_idx = max 0 (min block_size (sample_size - sample_idx))"
      by simp_all
    from adv True assms(1) have "sample_idx < sample_idx1" "sample_idx1 \<le> sample_size" by linarith+
    with less.prems l1 True have
      "nat (sample_size - sample_idx1) < nat (sample_size - sample_idx)" "0 \<le> sample_idx1"
      "b * sample_size + sample_size \<le> int (length samples1)"
      "int_ok (int (length samples1))"
      by simp_all
    from less.hyps [OF this, of g1] obtain samples' g' where
      "fill_row L log_returns n_blocks block_size sample_size b sample_idx1 samples1 g1
         = Some (Inr (samples', g'))" by blast
    with True r c show ?thesis by (subst fill_row.simps) simp
  qed
qed

lemma bootstrap_rows_total:
  assumes "1 \<le> block_size" and "0 \<le> b" and "0 \<le> sample_size" and "0 < n_blocks"
    and "n_blocks = int (length log_returns) - block_size + 1"
    and "int (length samples) = n_bootstrap * sample_size"
    and "int_ok (int (length log_returns))" and "int_ok (n_bootstrap * sample_size)"
  shows "\<exists>samples' g'.
           bootstrap_rows L log_returns n_blocks block_size sample_size n_bootstrap b samples g
             = Some (Inr (samples', g'))"
  using assms
proof (induction L log_returns n_blocks block_size sample_size n_bootstrap b samples g
         rule: bootstrap_rows.induct)
  case (1 L log_returns n_blocks block_size sample_size n_bootstrap b samples g)
  show ?case
  proof (cases "b < n_bootstrap")
    case False
    then show ?thesis by (simp add: bootstrap_rows_done)
  next
    case True
    note pb = rows_product_bound [OF True "1.prems"(3,2)]
    from pb "1.prems"(6) have le: "b * sample_size + sample_size \<le> int (length samples)" by simp
    from "1.prems"(6,8) have ok: "int_ok (int (length samples))" by simp
    from fill_row_total [OF "1.prems"(1) _ pb(2) le "1.prems"(4,5,7) ok, of 0 L g]
    obtain samples1 g1 where
      f: "fill_row L log_returns n_blocks block_size sample_size b 0 samples g
            = Some (Inr (samples1, g1))" by auto
    from fill_row_filled [OF f _ "1.prems"(3) pb(2) "1.prems"(4,5)]
    have "length samples1 = length samples" by (simp add: filled_def)
    with "1.IH" [OF True f refl refl "1.prems"(1) _ "1.prems"(3,4,5) _ "1.prems"(7,8)]
      "1.prems"(2,6)
    obtain samples' g' where
      "bootstrap_rows L log_returns n_blocks block_size sample_size n_bootstrap (b + 1) samples1 g1
         = Some (Inr (samples', g'))" by auto
    with True f show ?thesis by (simp add: bootstrap_rows_step)
  qed
qed

lemma block_subset: "set (block log_returns block_size s) \<subseteq> set log_returns"
  unfolding block_def by (meson set_take_subset set_drop_subset subset_trans)

lemma resampled_elements:
  assumes "resampled log_returns n_blocks block_size sample_size r" and "x \<in> set r"
  shows "\<exists>j. 0 \<le> j \<and> j < int (length log_returns) \<and> x = log_returns ! nat j"
proof -
  from assms obtain starts where
    "x \<in> set (take (nat sample_size) (concat (map (block log_returns block_size) starts)))"
    by (auto simp add: resampled_def)
  then have "x \<in> set (concat (map (block log_returns block_size) starts))"
    by (rule in_set_takeD)
  then have "x \<in> set log_returns" using block_subset by fastforce
  then obtain k where "k < length log_returns" "x = log_returns ! k"
    by (auto simp add: in_set_conv_nth)
  then show ?thesis by (intro exI [of _ "int k"]) simp
qed

lemma returned_rows:
  assumes "block_size \<le> n_returns" and "int (length log_returns) = n_returns"
    and run: "moving_block_bootstrap L st log_returns n_returns n_bootstrap sample_size block_size
                 seed = Some (Inr samples, st')"
    and b: "0 \<le> b" "b < n_bootstrap"
  shows "0 \<le> sample_size
       \<and> resampled log_returns (n_returns - block_size + 1) block_size sample_size
           (row samples sample_size b)"
proof -
  let ?n_blocks = "n_returns - block_size + 1"
  from run assms(1) obtain samples0 g' where
    a: "allocate_array L (n_bootstrap * sample_size) = Some samples0"
    and r: "bootstrap_rows L log_returns ?n_blocks block_size sample_size n_bootstrap 0 samples0
              (gen (seed_once L seed st)) = Some (Inr (samples, g'))"
    by (auto simp add: moving_block_bootstrap_def Let_def c_int_def
             split: option.splits sum.splits prod.splits if_splits)
  from allocate_array_Some [OF a] have sz: "0 \<le> n_bootstrap * sample_size"
    and len: "int (length samples0) = n_bootstrap * sample_size" by simp_all
  from sz b have ss: "0 \<le> sample_size" by (simp add: zero_le_mult_iff)
  from assms(1,2) have nb: "0 < ?n_blocks" "?n_blocks = int (length log_returns) - block_size + 1"
    by simp_all
  from bootstrap_rows_resampled [OF r _ ss nb len] b ss show ?thesis by simp
qed

lemma bootstrap_returns:
  assumes "block_size \<le> n_returns" and "int (length log_returns) = n_returns"
    and "1 \<le> block_size" and "0 \<le> n_bootstrap * sample_size"
    and "malloc_ok L (n_bootstrap * sample_size)"
    and "int_ok n_returns" and "int_ok (n_bootstrap * sample_size)"
  shows "\<exists>samples st'.
           moving_block_bootstrap L st log_returns n_returns n_bootstrap sample_size block_size seed
             = Some (Inr samples, st')"
proof -
  from assms(1,3,6) have d: "c_int (n_returns - block_size) = Inr (n_returns - block_size)"
    and d1: "c_int (n_returns - block_size + 1) = Inr (n_returns - block_size + 1)"
    by (simp_all add: c_int_def int_ok_def)
  from assms(7) have p: "c_int (n_bootstrap * sample_size) = Inr (n_bootstrap * sample_size)"
    by (rule c_int_ok)
  from assms(2,6) have okl: "int_ok (int (length log_returns))" by simp
  let ?n_blocks = "n_returns - block_size + 1"
  let ?samples0 = "map (junk L) [0..<nat (n_bootstrap * sample_size)]"
  from assms(4,5) have a: "allocate_array L (n_bootstrap * sample_size) = Some ?samples0"
    by (simp add: allocate_array_def)
  from assms(4) have len: "int (length ?samples0) = n_bootstrap * sample_size" by simp
  from assms(1,2) have nb: "0 < ?n_blocks" "?n_blocks = int (length log_returns) - block_size + 1"
    by simp_all
  have "\<exists>samples g'.
          bootstrap_rows L log_returns ?n_blocks block_size sample_size n_bootstrap 0 ?samples0
            (gen (seed_once L seed st)) = Some (Inr (samples, g'))"
  proof (cases "0 < n_bootstrap")
    case False
    then show ?thesis by (simp add: bootstrap_rows_done)
  next
    case True
    with assms(4) have ss: "0 \<le> sample_size" by (simp add: zero_le_mult_iff)
    show ?thesis by (rule bootstrap_rows_total [OF assms(3) _ ss nb len okl assms(7)]) simp
  qed
  with a assms(1) d d1 p show ?thesis
    by (auto simp add: moving_block_bootstrap_def Let_def)
qed

text \<open>
  Claim C5. Let the series have \<open>n_returns\<close> elements, at least \<open>block_size\<close>. Whenever
  \<^verbatim>\<open>moving_block_bootstrap\<close> returns a sample set, every row \<open>b\<close> of it, \<open>0 \<le> b < n_bootstrap\<close>,
  has exactly \<open>sample_size\<close> elements, each of them an element of the series, and the row
  is the first \<open>sample_size\<close> elements of a concatenation of blocks of the series that start
  at indices in \<open>0 .. n_returns - block_size\<close>; the last block starts inside the row, so
  only that one can be cut. The call does return a sample set when \<open>block_size \<ge> 1\<close>, the
  length \<open>n_returns\<close> and the product \<open>n_bootstrap * sample_size\<close> are values of a C
  \<^verbatim>\<open>int\<close> (the product is computed in \<^verbatim>\<open>int\<close>, and its overflow is undefined
  behaviour, for which nothing is claimed), the product is not negative, and the buffer
  can be allocated.
\<close>

theorem rows_are_resampled:
  assumes "block_size \<le> n_returns" and "int (length log_returns) = n_returns"
  shows "(moving_block_bootstrap L st log_returns n_returns n_bootstrap sample_size block_size seed
            = Some (Inr samples, st')
          \<longrightarrow> (\<forall>b. 0 \<le> b \<and> b < n_bootstrap \<longrightarrow>
                 0 \<le> sample_size
               \<and> length (row samples sample_size b) = nat sample_size
               \<and> (\<forall>x \<in> set (row samples sample_size b).
                     \<exists>j. 0 \<le> j \<and> j < n_returns \<and> x = log_returns ! nat j)
               \<and> (\<exists>starts.
                     (\<forall>s \<in> set starts. 0 \<le> s \<and> s \<le> n_returns - block_size)
                   \<and> (1 \<le> block_size \<longrightarrow>
                        int (length starts) * block_size < sample_size + block_size)
                   \<and> row samples sample_size b
                       = take (nat sample_size)
                           (concat (map (block log_returns block_size) starts)))))
       \<and> (1 \<le> block_size \<and> int_ok n_returns
          \<and> 0 \<le> n_bootstrap * sample_size \<and> int_ok (n_bootstrap * sample_size)
          \<and> malloc_ok L (n_bootstrap * sample_size)
          \<longrightarrow> (\<exists>samples st'.
                 moving_block_bootstrap L st log_returns n_returns n_bootstrap sample_size
                   block_size seed = Some (Inr samples, st')))"
proof -
  have "0 \<le> sample_size
      \<and> length (row samples sample_size b) = nat sample_size
      \<and> (\<forall>x \<in> set (row samples sample_size b).
            \<exists>j. 0 \<le> j \<and> j < n_returns \<and> x = log_returns ! nat j)
      \<and> (\<exists>starts.
            (\<forall>s \<in> set starts. 0 \<le> s \<and> s \<le> n_returns - block_size)
          \<and> (1 \<le> block_size \<longrightarrow>
               int (length starts) * block_size < sample_size + block_size)
          \<and> row samples sample_size b
              = take (nat sample_size) (concat (map (block log_returns block_size) starts)))"
    if run: "moving_block_bootstrap L st log_returns n_returns n_bootstrap sample_size block_size
               seed = Some (Inr samples, st')"
      and b: "0 \<le> b \<and> b < n_bootstrap" for b
  proof -
    from returned_rows [OF assms run, of b] b have ss: "0 \<le> sample_size"
      and res: "resampled log_returns (n_returns - block_size + 1) block_size sample_size
                  (row samples sample_size b)" by simp_all
    from res obtain starts where st:
      "\<forall>s \<in> set starts. 0 \<le> s \<and> s < n_returns - block_size + 1"
      "1 \<le> block_size \<longrightarrow> int (length starts) * block_size < sample_size + block_size"
      "row samples sample_size b
         = take (nat sample_size) (concat (map (block log_returns block_size) starts))"
      and len: "length (row samples sample_size b) = nat sample_size"
      by (auto simp add: resampled_def)
    have el: "\<forall>x \<in> set (row samples sample_size b).
               \<exists>j. 0 \<le> j \<and> j < n_returns \<and> x = log_returns ! nat j"
      using resampled_elements [OF res] assms(2) by simp
    from st(1) have "\<forall>s \<in> set starts. 0 \<le> s \<and> s \<le> n_returns - block_size" by auto
    with st(2,3) have "\<exists>starts.
            (\<forall>s \<in> set starts. 0 \<le> s \<and> s \<le> n_returns - block_size)
          \<and> (1 \<le> block_size \<longrightarrow>
               int (length starts) * block_size < sample_size + block_size)
          \<and> row samples sample_size b
              = take (nat sample_size) (concat (map (block log_returns block_size) starts))"
      by (intro exI [of _ starts]) simp
    with ss len el show ?thesis by simp
  qed
  moreover have "\<exists>samples st'.
      moving_block_bootstrap L st log_returns n_returns n_bootstrap sample_size block_size seed
        = Some (Inr samples, st')"
    if "1 \<le> block_size \<and> int_ok n_returns
          \<and> 0 \<le> n_bootstrap * sample_size \<and> int_ok (n_bootstrap * sample_size)
          \<and> malloc_ok L (n_bootstrap * sample_size)"
    using bootstrap_returns [OF assms, of n_bootstrap sample_size L st seed] that by simp
  ultimately show ?thesis by blast
qed

theorem rows_are_resampled_witness:
  "(2::int) \<le> 6
   \<and> int (length [1 / 100, - (2 / 100), 15 / 1000, 5 / 1000, - (1 / 100), 2 / 100 :: real]) = 6
   \<and> moving_block_bootstrap lcg fresh
         [1 / 100, - (2 / 100), 15 / 1000, 5 / 1000, - (1 / 100), 2 / 100] 6 2 5 2 42
       = Some (Inr [3 / 200, 1 / 200, - (1 / 100), 1 / 50, 1 / 200,
                    - (1 / 50), 3 / 200, 1 / 100, - (1 / 50), 3 / 200],
               \<lparr>seed_set = True, gen = 71666532, srand_calls = [42]\<rparr>)
   \<and> length (row [3 / 200, 1 / 200, - (1 / 100), 1 / 50, 1 / 200,
                   - (1 / 50), 3 / 200, 1 / 100, - (1 / 50), 3 / 200] 5 1) = nat 5
   \<and> (\<exists>starts.
         (\<forall>s \<in> set starts. 0 \<le> s \<and> s \<le> 6 - 2)
       \<and> (1 \<le> (2::int) \<longrightarrow> int (length starts) * 2 < 5 + 2)
       \<and> row [3 / 200, 1 / 200, - (1 / 100), 1 / 50, 1 / 200,
               - (1 / 50), 3 / 200, 1 / 100, - (1 / 50), 3 / 200] 5 1
           = take (nat 5)
               (concat (map (block [1 / 100, - (2 / 100), 15 / 1000, 5 / 1000, - (1 / 100), 2 / 100] 2)
                  starts)))
   \<and> (1::int) \<le> 2 \<and> int_ok 6 \<and> (0::int) \<le> 2 * 5 \<and> int_ok (2 * 5) \<and> malloc_ok lcg (2 * 5)"
proof -
  let ?series = "[1 / 100, - (2 / 100), 15 / 1000, 5 / 1000, - (1 / 100), 2 / 100 :: real]"
  let ?samples = "[3 / 200, 1 / 200, - (1 / 100), 1 / 50, 1 / 200,
                   - (1 / 50), 3 / 200, 1 / 100, - (1 / 50), 3 / 200 :: real]"
  let ?st = "\<lparr>seed_set = True, gen = 71666532 :: nat, srand_calls = [42]\<rparr>"
  have run: "moving_block_bootstrap lcg fresh ?series 6 2 5 2 42 = Some (Inr ?samples, ?st)"
    by (simp add: bootstrap_eval)
  have h: "(2::int) \<le> 6" "int (length ?series) = 6" by simp_all
  have m: "(1::int) \<le> 2 \<and> int_ok 6 \<and> (0::int) \<le> 2 * 5 \<and> int_ok (2 * 5) \<and> malloc_ok lcg (2 * 5)"
    by (simp add: lcg_def int_ok_def)
  from rows_are_resampled [OF h, of lcg fresh 2 5 42 ?samples ?st] run
  have "\<forall>b. 0 \<le> b \<and> b < 2 \<longrightarrow>
          0 \<le> (5::int)
        \<and> length (row ?samples 5 b) = nat 5
        \<and> (\<forall>x \<in> set (row ?samples 5 b). \<exists>j. 0 \<le> j \<and> j < 6 \<and> x = ?series ! nat j)
        \<and> (\<exists>starts.
              (\<forall>s \<in> set starts. 0 \<le> s \<and> s \<le> 6 - 2)
            \<and> (1 \<le> (2::int) \<longrightarrow> int (length starts) * 2 < 5 + 2)
            \<and> row ?samples 5 b = take (nat 5) (concat (map (block ?series 2) starts)))"
    by blast
  then have "length (row ?samples 5 1) = nat 5
        \<and> (\<exists>starts.
              (\<forall>s \<in> set starts. 0 \<le> s \<and> s \<le> 6 - 2)
            \<and> (1 \<le> (2::int) \<longrightarrow> int (length starts) * 2 < 5 + 2)
            \<and> row ?samples 5 1 = take (nat 5) (concat (map (block ?series 2) starts)))"
    by simp
  with run h m show ?thesis by blast
qed

text \<open>
  With an empty block (\<open>block_size \<le> 0\<close>) the \<^verbatim>\<open>while\<close> loop adds nothing to a row that
  still has cells to fill, and the call does not return.
\<close>

lemma fill_row_diverges:
  assumes "block_size \<le> 0" and "sample_idx < sample_size" and "n_blocks \<noteq> 0"
  shows "fill_row L log_returns n_blocks block_size sample_size b sample_idx samples g = None"
proof (rule ccontr)
  assume "fill_row L log_returns n_blocks block_size sample_size b sample_idx samples g \<noteq> None"
  then obtain y where
    y: "fill_row L log_returns n_blocks block_size sample_size b sample_idx samples g = Some y"
    by auto
  define P where "P = (\<lambda>(L :: 'a libc) (log_returns :: real list) (n_blocks :: int)
      (block_size :: int) (sample_size :: int) (b :: int) (sample_idx :: int)
      (samples :: real list) (g :: 'a) (y :: error + real list \<times> 'a).
      \<not> (block_size \<le> 0 \<and> sample_idx < sample_size \<and> n_blocks \<noteq> 0))"
  have "P L log_returns n_blocks block_size sample_size b sample_idx samples g y"
  proof (rule fill_row.raw_induct [where P = P, OF _ y], goal_cases)
    case (1 rec L log_returns n_blocks block_size sample_size b sample_idx samples g y)
    show ?case
      unfolding P_def
    proof
      assume h: "block_size \<le> 0 \<and> sample_idx < sample_size \<and> n_blocks \<noteq> 0"
      then have c: "\<And>s. copy_block log_returns s block_size sample_size b 0 sample_idx samples
                     = Inr (sample_idx, samples)"
        by (simp add: copy_block_done)
      from h random_int_returns [of n_blocks L g]
      obtain s g1 where "random_int L n_blocks g = Inr (s, g1)" by blast
      with 1(2) h c have "rec L log_returns n_blocks block_size sample_size b sample_idx samples g1
                            = Some y" by simp
      from 1(1) [OF this] h show False by (simp add: P_def)
    qed
  qed
  with assms show False by (simp add: P_def)
qed

lemma empty_block_never_returns:
  assumes "block_size \<le> 0" and "block_size \<le> n_returns" and "0 < n_bootstrap"
    and "0 < sample_size" and "malloc_ok L (n_bootstrap * sample_size)"
    and "int_ok (n_returns - block_size + 1)" and "int_ok (n_bootstrap * sample_size)"
  shows "moving_block_bootstrap L st log_returns n_returns n_bootstrap sample_size block_size seed
           = None"
proof -
  let ?samples0 = "map (junk L) [0..<nat (n_bootstrap * sample_size)]"
  from assms have "0 \<le> n_bootstrap * sample_size" by simp
  with assms(5) have a: "allocate_array L (n_bootstrap * sample_size) = Some ?samples0"
    by (simp add: allocate_array_def)
  from assms have "n_returns - block_size + 1 \<noteq> 0" by simp
  from fill_row_diverges [OF assms(1,4) this, of L log_returns 0 ?samples0
         "gen (seed_once L seed st)"]
  have "bootstrap_rows L log_returns (n_returns - block_size + 1) block_size sample_size n_bootstrap
          0 ?samples0 (gen (seed_once L seed st)) = None"
    using assms(3) by (simp add: bootstrap_rows_step)
  moreover from assms(2,6) have "c_int (n_returns - block_size) = Inr (n_returns - block_size)"
    "c_int (n_returns - block_size + 1) = Inr (n_returns - block_size + 1)"
    by (simp_all add: c_int_def int_ok_def)
  moreover from assms(7) have "c_int (n_bootstrap * sample_size) = Inr (n_bootstrap * sample_size)"
    by (rule c_int_ok)
  ultimately show ?thesis using a assms(2)
    by (simp add: moving_block_bootstrap_def Let_def)
qed

text \<open>
  The size of the buffer is the \<^verbatim>\<open>int\<close> product \<open>n_bootstrap * sample_size\<close>. When it
  does not fit (65536 rows of 65536 cells), the behaviour is undefined, whatever the
  series and the library.
\<close>

lemma overflowing_size_undefined:
  "moving_block_bootstrap L st [1, 2, 3] 3 65536 65536 2 seed
     = Some (Inl Undefined, seed_once L seed st)"
  by (simp add: moving_block_bootstrap_def Let_def c_int_def int_ok_def)

subsection \<open>Simulated prices\<close>












text \<open>
  Claim C2, at a concrete input. The variant that keeps the paths writes \<open>S0\<close> to the
  first cell of the path of the iteration, and the first pass of its inner loop (\<open>t = 0\<close>)
  writes the price after the first step to the same cell. In the returned buffer the path
  of iteration 0 (cells 2 and 3 here) starts with \<open>100 * exp 1\<close>, not with \<open>S0 = 100\<close>.
\<close>

theorem path_start_overwritten:
  "monte_carlo_simulation_paths lcg 1 100 [1, 2, 3, 4] 2 2 2 0
     = Inr ([Fin (100 * exp 1 * exp 2), Fin (100 * exp 3 * exp 4),
             Fin (100 * exp 1), Fin (100 * exp 1 * exp 2),
             Fin (100 * exp 3), Fin (100 * exp 3 * exp 4)], 377401575)
   \<and> [Fin (100 * exp 1 * exp 2), Fin (100 * exp 3 * exp 4),
       Fin (100 * exp 1), Fin (100 * exp 1 * exp 2),
       Fin (100 * exp 3), Fin (100 * exp 3 * exp 4)] ! nat (2 + 0 * 2)
       \<noteq> Fin 100"
  by (simp add: simulation_eval)

subsection \<open>The two variants of the simulation\<close>

lemma compound_related:
  assumes "0 \<le> base" and "base + sample_size \<le> int (length rs1)"
    and "base = iterations + iter * sample_size"
    and "int_ok (iter * sample_size)" and "int_ok (base + sample_size)"
  shows "rel_sum (=)
           (\<lambda>c s. fst s = c \<and> length (snd s) = length rs1
                 \<and> (\<forall>j. int j < base \<or> base + sample_size \<le> int j \<longrightarrow> snd s ! j = rs1 ! j)
                 \<and> (0 < sample_size \<longrightarrow> snd s ! nat (base + sample_size - 1) = c))
           (for_loop 0 sample_size (compound L bootstrap_samples bootstrap_idx sample_size) c0)
           (for_loop 0 sample_size
              (compound_path L bootstrap_samples bootstrap_idx sample_size iterations iter)
              (c0, rs1))"
proof -
  let ?R = "\<lambda>t c s. fst s = c \<and> length (snd s) = length rs1
                 \<and> (\<forall>j. int j < base \<or> base + sample_size \<le> int j \<longrightarrow> snd s ! j = rs1 ! j)
                 \<and> (0 < t \<longrightarrow> snd s ! nat (base + t - 1) = c)"
  have "rel_sum (=) (?R (max 0 sample_size))
           (for_loop 0 sample_size (compound L bootstrap_samples bootstrap_idx sample_size) c0)
           (for_loop 0 sample_size
              (compound_path L bootstrap_samples bootstrap_idx sample_size iterations iter)
              (c0, rs1))"
  proof (rule for_loop_related, goal_cases)
    case 1
    show ?case by simp
  next
    case (2 t c s)
    obtain c' rs where s: "s = (c', rs)" by (cases s)
    with 2(3) have c': "c' = c" and len: "length rs = length rs1"
      and frame: "\<forall>j. int j < base \<or> base + sample_size \<le> int j \<longrightarrow> rs ! j = rs1 ! j"
      by simp_all
    show ?case
    proof (cases "c_mul_add bootstrap_idx sample_size t")
      case (Inl e)
      then show ?thesis by (simp add: compound_def compound_path_def s)
    next
      case k: (Inr k)
      show ?thesis
      proof (cases "load bootstrap_samples k")
        case (Inl e)
        with k show ?thesis by (simp add: compound_def compound_path_def s)
      next
        case (Inr v)
        let ?p = "mul_d L c (exp_d L v)"
        from 2(1,2) assms len have rng: "0 \<le> base + t" "base + t < int (length rs)" by simp_all
        from assms(1,5) have okb: "int_ok base" "int_ok (base + t)"
          using 2(1,2) by (simp_all add: int_ok_def)
        with assms(3,4) have cm: "c_mul_add iter sample_size iterations = Inr base"
          by (simp add: c_mul_add_def c_int_def ac_simps)
        from okb have ci: "c_int (base + t) = Inr (base + t)" by (simp add: c_int_def)
        from rng have st: "store rs (base + t) ?p = Inr (rs[nat (base + t) := ?p])"
          by (simp add: store_def)
        have "\<forall>j. int j < base \<or> base + sample_size \<le> int j \<longrightarrow>
                rs[nat (base + t) := ?p] ! j = rs1 ! j"
          using frame 2(1,2) rng by (auto simp add: nth_list_update)
        moreover have "rs[nat (base + t) := ?p] ! nat (base + (t + 1) - 1) = ?p"
          using rng by simp
        ultimately show ?thesis
          using k Inr cm ci st len by (simp add: compound_def compound_path_def s c' Let_def)
      qed
    qed
  qed
  then show ?thesis by (simp add: max_def split: if_splits)
qed

lemma iterations_related:
  assumes ss: "1 \<le> sample_size" and j: "0 \<le> j" "j < iterations"
    and ok: "int_ok (iterations + iterations * sample_size)"
    and R: "agree iterations sample_size j (fp, g) (rs, g)"
  shows "rel_sum (=) (agree iterations sample_size (j + 1))
           (mc_iteration L S0 bootstrap_samples n_bootstrap sample_size j (fp, g))
           (mc_path_iteration L S0 bootstrap_samples n_bootstrap sample_size iterations j (rs, g))"
proof (cases "random_int L n_bootstrap g")
  case (Inl e)
  then show ?thesis by (simp add: mc_iteration_def mc_path_iteration_def)
next
  case (Inr r)
  obtain bootstrap_idx g1 where r: "r = (bootstrap_idx, g1)" by (cases r)
  let ?base = "iterations + j * sample_size"
  from R have lf: "int (length fp) = iterations"
    and lr: "int (length rs) = iterations + iterations * sample_size"
    and old: "\<forall>k. 0 \<le> k \<and> k < j \<longrightarrow>
                rs ! nat k = fp ! nat k
              \<and> rs ! nat k = rs ! nat (iterations + k * sample_size + sample_size - 1)"
    unfolding agree_def by auto
  from j ss have "(j + 1) * sample_size \<le> iterations * sample_size"
    by (intro mult_right_mono) auto
  then have top: "j * sample_size + sample_size \<le> iterations * sample_size"
    by (simp add: distrib_right)
  from j ss have js: "0 \<le> j * sample_size" by simp
  with j have base: "0 \<le> ?base" "iterations \<le> ?base" by simp_all
  have okj: "int_ok (j * sample_size)" and okb: "int_ok ?base"
    and okt: "int_ok (?base + sample_size)"
    using js top ss j ok unfolding int_ok_def by linarith+
  from okj okb have cm: "c_mul_add j sample_size iterations = Inr ?base"
    by (simp add: c_mul_add_def c_int_def ac_simps)
  let ?rs1 = "rs[nat ?base := Fin S0]"
  from top lr ss have "?base < int (length rs)" by linarith
  with base have s1: "store rs ?base (Fin S0) = Inr ?rs1"
    by (simp add: store_def)
  have l1: "length ?rs1 = length rs" by simp
  from top lr have fits: "?base + sample_size \<le> int (length ?rs1)" by simp
  note inner = compound_related [OF base(1) fits refl okj okt,
                 of L bootstrap_samples bootstrap_idx "Fin S0"]
  show ?thesis
  proof (cases "for_loop 0 sample_size (compound L bootstrap_samples bootstrap_idx sample_size)
                  (Fin S0)")
    case (Inl e)
    with inner have "for_loop 0 sample_size
        (compound_path L bootstrap_samples bootstrap_idx sample_size iterations j) (Fin S0, ?rs1)
        = Inl e"
      by (cases "for_loop 0 sample_size
        (compound_path L bootstrap_samples bootstrap_idx sample_size iterations j) (Fin S0, ?rs1)")
         auto
    with Inl Inr r s1 cm show ?thesis by (simp add: mc_iteration_def mc_path_iteration_def)
  next
    case c: (Inr c)
    with inner obtain rs2 where
      p: "for_loop 0 sample_size
            (compound_path L bootstrap_samples bootstrap_idx sample_size iterations j)
            (Fin S0, ?rs1) = Inr (c, rs2)"
      and l2: "length rs2 = length ?rs1"
      and frame: "\<forall>i. int i < ?base \<or> ?base + sample_size \<le> int i \<longrightarrow> rs2 ! i = ?rs1 ! i"
      and last: "rs2 ! nat (?base + sample_size - 1) = c"
      using ss
      by (cases "for_loop 0 sample_size
        (compound_path L bootstrap_samples bootstrap_idx sample_size iterations j) (Fin S0, ?rs1)")
         auto
    from j lf have sa: "store fp j c = Inr (fp[nat j := c])" by (simp add: store_def)
    from j ss have "0 \<le> iterations * sample_size" by simp
    with j lr l2 have jl: "nat j < length rs2" by simp
    with j have sp: "store rs2 j c = Inr (rs2[nat j := c])"
      by (simp add: store_def)
    from j lf have jf: "nat j < length fp" by simp
    have keep: "rs2 ! nat i = rs ! nat i" if "0 \<le> i" "i < ?base" for i
    proof -
      from that frame have "rs2 ! nat i = ?rs1 ! nat i" by simp
      also from that have "\<dots> = rs ! nat i" by simp
      finally show ?thesis .
    qed
    have new: "agree iterations sample_size (j + 1) (fp[nat j := c], g1) (rs2[nat j := c], g1)"
      unfolding agree_def
    proof (intro conjI allI impI)
      show "snd (rs2[nat j := c], g1) = snd (fp[nat j := c], g1)" by simp
      show "int (length (fst (fp[nat j := c], g1))) = iterations" using lf by simp
      show "int (length (fst (rs2[nat j := c], g1))) = iterations + iterations * sample_size"
        using lr l2 by simp
    next
      fix k assume k: "0 \<le> k \<and> k < j + 1"
      show "fst (rs2[nat j := c], g1) ! nat k = fst (fp[nat j := c], g1) ! nat k"
      proof (cases "k = j")
        case True
        with jl jf show ?thesis by simp
      next
        case False
        with k have kj: "k < j" by simp
        with k j base have "rs2 ! nat k = rs ! nat k" by (intro keep) auto
        with old k kj False show ?thesis by simp
      qed
    next
      fix k assume k: "0 \<le> k \<and> k < j + 1"
      let ?p = "iterations + k * sample_size + sample_size - 1"
      from k ss have "0 \<le> k * sample_size" by simp
      with ss j have pk: "iterations \<le> ?p" "j < ?p" by linarith+
      then have ne: "nat ?p \<noteq> nat j" using j by simp
      show "fst (rs2[nat j := c], g1) ! nat k = fst (rs2[nat j := c], g1) ! nat ?p"
      proof (cases "k = j")
        case True
        with jl last ne show ?thesis by simp
      next
        case False
        with k have kj: "k < j" by simp
        with k ss have "(k + 1) * sample_size \<le> j * sample_size"
          by (intro mult_right_mono) auto
        then have below: "?p < ?base" by (simp add: distrib_right)
        from k kj j base have a: "rs2 ! nat k = rs ! nat k" by (intro keep) auto
        from pk below j have b: "rs2 ! nat ?p = rs ! nat ?p" by (intro keep) auto
        from old k kj have "rs ! nat k = rs ! nat ?p" by blast
        moreover from k kj have "nat k \<noteq> nat j" by simp
        ultimately show ?thesis using a b ne by simp
      qed
    qed
    from c p Inr r s1 cm sa sp new show ?thesis
      by (simp add: mc_iteration_def mc_path_iteration_def)
  qed
qed

text \<open>
  With at least one step a path (\<open>sample_size \<ge> 1\<close>), the size of the second buffer a value
  of a C \<^verbatim>\<open>int\<close>, and both buffers allocated, the two variants fail alike or return the
  same final prices and the same generator, and in the buffer of the second each final
  price is the last cell of the path of its iteration.
\<close>

lemma variants_agree:
  assumes "1 \<le> sample_size" and "malloc_ok L iterations"
    and "malloc_ok L (iterations + iterations * sample_size)"
    and "int_ok (iterations * sample_size)" and "int_ok (iterations + iterations * sample_size)"
  shows "rel_sum (=)
           (\<lambda>a p. snd p = snd a \<and> take (nat iterations) (fst p) = fst a
                 \<and> (\<forall>k. 0 \<le> k \<and> k < iterations \<longrightarrow>
                       fst p ! nat k
                         = fst p ! nat (iterations + k * sample_size + sample_size - 1)))
           (monte_carlo_simulation L g S0 bootstrap_samples n_bootstrap sample_size iterations)
           (monte_carlo_simulation_paths L g S0 bootstrap_samples n_bootstrap sample_size
              iterations seed)"
proof -
  from assms(4,5) have
    sz: "c_mul_add iterations sample_size iterations = Inr (iterations + iterations * sample_size)"
    by (simp add: c_mul_add_def c_int_def ac_simps)
  show ?thesis
  proof (cases "0 \<le> iterations")
    case False
    with assms(1) have "iterations + iterations * sample_size < 0"
      by (simp add: mult_less_0_iff add_neg_neg)
    with False sz show ?thesis
      by (simp add: monte_carlo_simulation_def monte_carlo_simulation_paths_def
            allocate_prices_def allocate_array_def)
  next
    case True
    let ?fp0 = "map Fin (map (junk L) [0..<nat iterations])"
    let ?rs0 = "map Fin (map (junk L) [0..<nat (iterations + iterations * sample_size)])"
    from True assms(1) have nn: "0 \<le> iterations * sample_size" by simp
    from True assms(2) have a: "allocate_prices L iterations = Some ?fp0"
      by (simp add: allocate_prices_def allocate_array_def)
    from True nn assms(3) have
      b: "allocate_prices L (iterations + iterations * sample_size) = Some ?rs0"
      by (simp add: allocate_prices_def allocate_array_def)
    from True nn have start: "agree iterations sample_size 0 (?fp0, g) (?rs0, g)"
      by (simp add: agree_def)
    have "rel_sum (=) (agree iterations sample_size (max 0 iterations))
            (for_loop 0 iterations (mc_iteration L S0 bootstrap_samples n_bootstrap sample_size)
               (?fp0, g))
            (for_loop 0 iterations
               (mc_path_iteration L S0 bootstrap_samples n_bootstrap sample_size iterations)
               (?rs0, g))"
    proof (rule for_loop_related [where R = "agree iterations sample_size"], goal_cases)
      case 1
      show ?case by (rule start)
    next
      case (2 j t1 t2)
      obtain fp g1 rs g2 where t: "t1 = (fp, g1)" "t2 = (rs, g2)" by (cases t1, cases t2) auto
      with 2(3) have "g2 = g1" by (simp add: agree_def)
      with iterations_related [OF assms(1) 2(1,2) assms(5), of fp g1 rs] 2(3) t show ?case by simp
    qed
    moreover have "snd p = snd a \<and> take (nat iterations) (fst p) = fst a
                   \<and> (\<forall>k. 0 \<le> k \<and> k < iterations \<longrightarrow>
                         fst p ! nat k
                           = fst p ! nat (iterations + k * sample_size + sample_size - 1))"
      if ag: "agree iterations sample_size (max 0 iterations) a p" for a p :: "double list \<times> 'a"
    proof -
      from ag True have la: "length (fst a) = nat iterations"
        and lp: "nat iterations \<le> length (fst p)"
        and eq: "\<forall>k. 0 \<le> k \<and> k < iterations \<longrightarrow> fst p ! nat k = fst a ! nat k"
        using nn by (auto simp add: agree_def max_def)
      have "take (nat iterations) (fst p) = fst a"
      proof (rule nth_equalityI)
        show "length (take (nat iterations) (fst p)) = length (fst a)" using la lp by simp
      next
        fix i assume "i < length (take (nat iterations) (fst p))"
        then have i: "i < nat iterations" by simp
        with eq have "fst p ! nat (int i) = fst a ! nat (int i)" by (intro eq [rule_format]) auto
        with i show "take (nat iterations) (fst p) ! i = fst a ! i" by simp
      qed
      moreover from ag True have "snd p = snd a"
        and "\<forall>k. 0 \<le> k \<and> k < iterations \<longrightarrow>
               fst p ! nat k = fst p ! nat (iterations + k * sample_size + sample_size - 1)"
        unfolding agree_def max_def by auto
      ultimately show ?thesis by blast
    qed
    ultimately have "rel_sum (=)
             (\<lambda>a p. snd p = snd a \<and> take (nat iterations) (fst p) = fst a
                   \<and> (\<forall>k. 0 \<le> k \<and> k < iterations \<longrightarrow>
                         fst p ! nat k
                           = fst p ! nat (iterations + k * sample_size + sample_size - 1)))
            (for_loop 0 iterations (mc_iteration L S0 bootstrap_samples n_bootstrap sample_size)
               (?fp0, g))
            (for_loop 0 iterations
               (mc_path_iteration L S0 bootstrap_samples n_bootstrap sample_size iterations)
               (?rs0, g))"
      by (fastforce simp add: rel_sum.simps)
    with a b sz show ?thesis
      by (simp add: monte_carlo_simulation_def monte_carlo_simulation_paths_def)
  qed
qed

lemma compound_total:
  assumes "0 \<le> bootstrap_idx" and "bootstrap_idx < n_bootstrap"
    and "n_bootstrap * sample_size \<le> int (length bootstrap_samples)"
    and "int_ok (int (length bootstrap_samples))"
  shows "\<exists>p. for_loop 0 sample_size (compound L bootstrap_samples bootstrap_idx sample_size) c0
               = Inr p"
proof -
  have "\<exists>p. for_loop 0 sample_size (compound L bootstrap_samples bootstrap_idx sample_size) c0
               = Inr p
            \<and> (\<lambda>t (c::double). True) (max 0 sample_size) p"
  proof (rule for_loop_total, goal_cases)
    case 1
    show ?case by simp
  next
    case (2 t c)
    from 2(1,2) assms(1,2) have "(bootstrap_idx + 1) * sample_size \<le> n_bootstrap * sample_size"
      by (intro mult_right_mono) auto
    then have up: "bootstrap_idx * sample_size + sample_size \<le> n_bootstrap * sample_size"
      by (simp add: distrib_right)
    from 2(1,2) assms(1) have lo: "0 \<le> bootstrap_idx * sample_size" by simp
    from lo up 2(1,2) assms(3,4) have
      "c_mul_add bootstrap_idx sample_size t = Inr (bootstrap_idx * sample_size + t)"
      by (intro c_mul_add_ok) (simp_all add: int_ok_def)
    with lo up show ?case
      using 2(1,2) assms(3) by (simp add: compound_def load_def)
  qed
  then show ?thesis by blast
qed

text \<open>
  Both variants return their buffers when the row index can be drawn (\<open>n_bootstrap > 0\<close>),
  the sample buffer holds \<open>n_bootstrap * sample_size\<close> cells and the allocation succeeds;
  the variant that keeps the paths needs \<open>sample_size \<ge> 1\<close> as well. The sizes are values of
  a C \<^verbatim>\<open>int\<close>.
\<close>

lemma simulation_returns:
  assumes "0 < n_bootstrap" and "n_bootstrap * sample_size \<le> int (length bootstrap_samples)"
    and "0 \<le> iterations" and "malloc_ok L iterations"
    and "int_ok (int (length bootstrap_samples))"
  shows "\<exists>final_prices g'.
           monte_carlo_simulation L g S0 bootstrap_samples n_bootstrap sample_size iterations
             = Inr (final_prices, g')"
proof -
  let ?fp0 = "map Fin (map (junk L) [0..<nat iterations])"
  from assms(3,4) have a: "allocate_prices L iterations = Some ?fp0"
    by (simp add: allocate_prices_def allocate_array_def)
  have "\<exists>s'. for_loop 0 iterations (mc_iteration L S0 bootstrap_samples n_bootstrap sample_size)
                 (?fp0, g) = Inr s'
            \<and> (\<lambda>iter s. int (length (fst s)) = iterations) (max 0 iterations) s'"
  proof (rule for_loop_total, goal_cases)
    case 1
    show ?case using assms(3) by simp
  next
    case (2 j t)
    obtain fp g1 where t: "t = (fp, g1)" by (cases t)
    from random_int_total [OF assms(1), of L g1] obtain idx g2 where
      r: "random_int L n_bootstrap g1 = Inr (idx, g2)" by blast
    from random_int_range [OF r assms(1)] have "0 \<le> idx" "idx < n_bootstrap" by simp_all
    from compound_total [OF this assms(2,5), of L "Fin S0"] obtain p where
      c: "for_loop 0 sample_size (compound L bootstrap_samples idx sample_size) (Fin S0) = Inr p"
      by blast
    from 2 t have "store fp j p = Inr (fp[nat j := p])" by (simp add: store_def)
    with r c 2(3) t show ?case by (simp add: mc_iteration_def)
  qed
  with a show ?thesis by (auto simp add: monte_carlo_simulation_def)
qed

lemma simulation_paths_returns:
  assumes "0 < n_bootstrap" and "n_bootstrap * sample_size \<le> int (length bootstrap_samples)"
    and "0 \<le> iterations" and "malloc_ok L iterations" and "1 \<le> sample_size"
    and "malloc_ok L (iterations + iterations * sample_size)"
    and "int_ok (int (length bootstrap_samples))"
    and "int_ok (iterations * sample_size)" and "int_ok (iterations + iterations * sample_size)"
  shows "\<exists>results g'.
           monte_carlo_simulation_paths L g S0 bootstrap_samples n_bootstrap sample_size iterations
             seed = Inr (results, g')"
proof -
  from simulation_returns [OF assms(1-4,7), of g S0] obtain final_prices g' where
    "monte_carlo_simulation L g S0 bootstrap_samples n_bootstrap sample_size iterations
       = Inr (final_prices, g')" by blast
  with variants_agree [OF assms(5,4,6,8,9), of g S0 bootstrap_samples n_bootstrap seed]
  show ?thesis
    by (cases "monte_carlo_simulation_paths L g S0 bootstrap_samples n_bootstrap sample_size
                 iterations seed") auto
qed

text \<open>
  Claim C10, at a concrete input. With \<open>sample_size = 0\<close> and one iteration, the variant
  that keeps the final prices only returns the final price \<open>S0\<close>. The variant that keeps
  the paths allocates one cell and writes \<open>S0\<close> to cell \<open>iterations + iter * sample_size = 1\<close>,
  past the end of the buffer: it has no defined result.
\<close>

theorem paths_variant_out_of_bounds:
  "monte_carlo_simulation lcg 1 100 [] 1 0 1 = Inr ([Fin 100], 1103527590)
   \<and> monte_carlo_simulation_paths lcg 1 100 [] 1 0 1 0 = Inl Undefined"
  by (simp add: simulation_eval)

subsection \<open>The line search\<close>

lemma differentiate_weights:
  assumes "differentiate L arrival_values n_assets n_simulations risk_free_rate i (w, g, h)
             = Inr (w', g', h')"
  shows "w' = w"
proof -
  from assms obtain w1 w2 where
    "add_to w i (1 / 1000000) = Inr w1" "add_to w1 i (- (2 * (1 / 1000000))) = Inr w2"
    "add_to w2 i (1 / 1000000) = Inr w'"
    by (auto simp add: differentiate_def Let_def split: sum.splits)
  then show ?thesis
    by (auto simp add: add_to_Inr)
qed

lemma differentiate_loop_weights:
  assumes "for_loop 0 n_assets (differentiate L arrival_values n_assets n_simulations risk_free_rate)
             (w, g, h) = Inr (w', g', h')"
  shows "w' = w"
proof -
  have "(\<lambda>i s. fst s = w) (max 0 n_assets) (w', g', h')"
    by (rule for_loop_invariant [OF assms]) (auto dest: differentiate_weights)
  then show ?thesis by simp
qed

lemma line_search_exit:
  assumes "line_search L arrival_values n_assets n_simulations risk_free_rate delta f_current
             ls_iter alpha w = Inr (k, w')"
  shows "ls_iter \<le> k
       \<and> (k < 10 \<longrightarrow>
            (\<exists>f_new. negative_sharpe_ratio L w' arrival_values n_assets n_simulations risk_free_rate
                        = Inr f_new \<and> f_new < f_current))
       \<and> (10 \<le> k \<and> ls_iter < 10 \<longrightarrow>
            k = 10 \<and>
            (\<exists>f_new. negative_sharpe_ratio L w' arrival_values n_assets n_simulations risk_free_rate
                        = Inr f_new \<and> \<not> f_new < f_current))
       \<and> (10 \<le> ls_iter \<longrightarrow> k = ls_iter \<and> w' = w)"
  using assms
proof (induction L arrival_values n_assets n_simulations risk_free_rate delta f_current
         ls_iter alpha w rule: line_search.induct)
  case (1 L arrival_values n_assets n_simulations risk_free_rate delta f_current ls_iter alpha w)
  show ?case
  proof (cases "ls_iter < 10")
    case False
    with "1.prems" show ?thesis by (simp add: line_search.simps)
  next
    case True
    with "1.prems" obtain w1 f_new where
      a: "ls_attempt n_assets delta alpha w = Inr w1"
      and f: "negative_sharpe_ratio L w1 arrival_values n_assets n_simulations risk_free_rate = Inr f_new"
      by (subst (asm) line_search.simps) (auto split: sum.splits)
    show ?thesis
    proof (cases "f_new < f_current")
      case accept: True
      with "1.prems" True a f have "k = ls_iter" "w' = w1"
        by (subst (asm) line_search.simps, simp)+
      with True f accept show ?thesis by simp
    next
      case reject: False
      with "1.prems" True a f have
        "line_search L arrival_values n_assets n_simulations risk_free_rate delta f_current
           (ls_iter + 1) (alpha * (1 / 2)) w1 = Inr (k, w')"
        by (subst (asm) line_search.simps) simp
      from "1.IH" [OF True a f reject this] f reject True
      show ?thesis by (cases "ls_iter + 1 < 10") auto
    qed
  qed
qed

lemma newton_round_line_search:
  assumes "newton_round L arrival_values n_assets n_simulations risk_free_rate tolerance w
             = Inr (w', converged)"
  shows "\<exists>delta f_current k.
           negative_sharpe_ratio L w arrival_values n_assets n_simulations risk_free_rate
             = Inr f_current
         \<and> line_search L arrival_values n_assets n_simulations risk_free_rate delta f_current 0 1 w
             = Inr (k, w')"
proof -
  from assms obtain g0 h0 w0 g1 h1 delta f_current k where
    d: "for_loop 0 n_assets (differentiate L arrival_values n_assets n_simulations risk_free_rate)
          (w, g0, h0) = Inr (w0, g1, h1)"
    and f: "negative_sharpe_ratio L w0 arrival_values n_assets n_simulations risk_free_rate
              = Inr f_current"
    and l: "line_search L arrival_values n_assets n_simulations risk_free_rate delta f_current 0 1 w0
              = Inr (k, w')"
    by (auto simp add: newton_round_def split: option.splits sum.splits prod.splits)
  from differentiate_loop_weights [OF d] f l show ?thesis by auto
qed

lemma returns_one_asset:
  "calculate_portfolio_returns lcg [w] [1, 3] 1 2 = Inr [w, w * 3]"
  by (simp add: optimizer_eval)

lemma sharpe_one_asset:
  "calculate_sharpe_ratio [w, w * 3] 2 r = Inr (if w = 0 then 0 else (2 * w - r) / \<bar>w\<bar>)"
proof -
  have v: "(w * w + w * 3 * (w * 3)) / 2 - (w + w * 3) / 2 * ((w + w * 3) / 2) = w * w"
    by (simp add: field_simps)
  have a: "for_loop 0 2 (accumulate [w, w * 3]) (0, 0) = Inr (w + w * 3, w * w + w * 3 * (w * 3))"
    by (simp add: for_loop.simps accumulate_def load_def)
  show ?thesis
    by (simp add: calculate_sharpe_ratio_def a v Let_def)
qed

lemma objective_one_asset:
  "negative_sharpe_ratio lcg [w] [1, 3] 1 2 r = Inr (if w = 0 then 0 else - ((2 * w - r) / \<bar>w\<bar>))"
  by (simp add: negative_sharpe_ratio_def returns_one_asset sharpe_one_asset)

lemmas round_eval =
  optimize_portfolio_newton_raphson_def newton_loop.simps newton_round_def line_search.simps
  ls_attempt_def move_def clamp_def rescale_def solve_diagonal_def clear_row_def clear_cell_def
  differentiate_def add_square_def copy_weight_def add_to_def load_cell_def store_cell_def
  allocate_matrix_def allocate_array_def objective_one_asset
  for_loop.simps load_def store_def Let_def upt_conv_Cons

text \<open>
  Claim C3. Every round that returns has run the line search from the weights \<open>w\<close> it
  started with, with \<open>f_current\<close> the objective at \<open>w\<close>. If the search was left by its
  \<^verbatim>\<open>break\<close> (\<open>k < 10\<close>, an attempt was accepted), the objective at the weights kept is
  below \<open>f_current\<close>. The weights kept can be worse than \<open>w\<close> only when all ten attempts
  were rejected (\<open>k = 10\<close>).
\<close>

theorem round_improves_when_accepted:
  assumes "newton_round L arrival_values n_assets n_simulations risk_free_rate tolerance w
             = Inr (w', converged)"
  shows "\<exists>delta f_current k f_new.
           negative_sharpe_ratio L w arrival_values n_assets n_simulations risk_free_rate
             = Inr f_current
         \<and> line_search L arrival_values n_assets n_simulations risk_free_rate delta f_current 0 1 w
             = Inr (k, w')
         \<and> negative_sharpe_ratio L w' arrival_values n_assets n_simulations risk_free_rate
             = Inr f_new
         \<and> 0 \<le> k \<and> k \<le> 10
         \<and> (k < 10 \<longrightarrow> f_new < f_current)
         \<and> (f_current < f_new \<longrightarrow> k = 10)"
proof -
  from newton_round_line_search [OF assms] obtain delta f_current k where
    f: "negative_sharpe_ratio L w arrival_values n_assets n_simulations risk_free_rate
          = Inr f_current"
    and l: "line_search L arrival_values n_assets n_simulations risk_free_rate delta f_current 0 1 w
          = Inr (k, w')"
    by blast
  note e = line_search_exit [OF l]
  show ?thesis
  proof (cases "k < 10")
    case True
    with e obtain f_new where
      "negative_sharpe_ratio L w' arrival_values n_assets n_simulations risk_free_rate = Inr f_new"
      "f_new < f_current" by auto
    with f l e True show ?thesis by (intro exI [of _ delta] exI [of _ f_current] exI [of _ k] exI [of _ f_new]) auto
  next
    case False
    with e obtain f_new where
      "negative_sharpe_ratio L w' arrival_values n_assets n_simulations risk_free_rate = Inr f_new"
      "k = 10" by auto
    with f l e False show ?thesis by (intro exI [of _ delta] exI [of _ f_current] exI [of _ k] exI [of _ f_new]) auto
  qed
qed

theorem round_improves_when_accepted_witness:
  "newton_round lcg [1, 3] 1 2 (1 / 10) 0 [1 / 2] = Inr ([1], False)
   \<and> negative_sharpe_ratio lcg [1 / 2] [1, 3] 1 2 (1 / 10) = Inr (- (9 / 5))
   \<and> negative_sharpe_ratio lcg [1] [1, 3] 1 2 (1 / 10) = Inr (- (19 / 10))
   \<and> (\<exists>delta f_current k f_new.
         negative_sharpe_ratio lcg [1 / 2] [1, 3] 1 2 (1 / 10) = Inr f_current
       \<and> line_search lcg [1, 3] 1 2 (1 / 10) delta f_current 0 1 [1 / 2] = Inr (k, [1])
       \<and> negative_sharpe_ratio lcg [1] [1, 3] 1 2 (1 / 10) = Inr f_new
       \<and> 0 \<le> k \<and> k \<le> 10 \<and> (k < 10 \<longrightarrow> f_new < f_current) \<and> (f_current < f_new \<longrightarrow> k = 10))"
proof -
  have run: "newton_round lcg [1, 3] 1 2 (1 / 10) 0 [1 / 2] = Inr ([1], False)"
    by (simp add: round_eval) (simp add: lcg_def)
  have "negative_sharpe_ratio lcg [1 / 2] [1, 3] 1 2 (1 / 10) = Inr (- (9 / 5))"
    and "negative_sharpe_ratio lcg [1] [1, 3] 1 2 (1 / 10) = Inr (- (19 / 10))"
    by (simp_all add: objective_one_asset)
  with round_improves_when_accepted [OF run] run show ?thesis by blast
qed

lemma line_search_cumulative:
  assumes "line_search L arrival_values n_assets n_simulations risk_free_rate delta f_current
             ls_iter alpha w = Inr (k, w')"
    and "cumulative_attempts n_assets delta (nat ls_iter) w0 = Inr w"
    and "alpha = (1 / 2) ^ nat ls_iter" and "0 \<le> ls_iter"
  shows "cumulative_attempts n_assets delta (if k < 10 then nat k + 1 else nat k) w0 = Inr w'"
  using assms
proof (induction L arrival_values n_assets n_simulations risk_free_rate delta f_current
         ls_iter alpha w rule: line_search.induct)
  case (1 L arrival_values n_assets n_simulations risk_free_rate delta f_current ls_iter alpha w)
  show ?case
  proof (cases "ls_iter < 10")
    case False
    with "1.prems" show ?thesis by (simp add: line_search.simps)
  next
    case True
    with "1.prems" obtain w1 f_new where
      a: "ls_attempt n_assets delta alpha w = Inr w1"
      and f: "negative_sharpe_ratio L w1 arrival_values n_assets n_simulations risk_free_rate = Inr f_new"
      by (subst (asm) line_search.simps) (auto split: sum.splits)
    from "1.prems"(4) have n: "nat (ls_iter + 1) = Suc (nat ls_iter)" by simp
    from a "1.prems"(2,3) have c: "cumulative_attempts n_assets delta (nat (ls_iter + 1)) w0 = Inr w1"
      by (simp add: n)
    show ?thesis
    proof (cases "f_new < f_current")
      case accept: True
      with "1.prems" True a f have "k = ls_iter" "w' = w1"
        by (subst (asm) line_search.simps, simp)+
      with True c n show ?thesis by simp
    next
      case reject: False
      with "1.prems" True a f have rest:
        "line_search L arrival_values n_assets n_simulations risk_free_rate delta f_current
           (ls_iter + 1) (alpha * (1 / 2)) w1 = Inr (k, w')"
        by (subst (asm) line_search.simps) simp
      have "alpha * (1 / 2) = (1 / 2) ^ nat (ls_iter + 1)"
        using "1.prems"(3) by (simp add: n)
      from "1.IH" [OF True a f reject rest c this] "1.prems"(4) show ?thesis by simp
    qed
  qed
qed

text \<open>
  Claim C4. The weights that the line search leaves are those of the cumulative attempts:
  attempt \<open>j\<close> starts from the weights that attempt \<open>j - 1\<close> left, with \<open>alpha\<close> halved each
  time. When attempt \<open>k < 10\<close> was accepted, \<open>k + 1\<close> attempts were made; otherwise ten.
\<close>

theorem line_search_is_cumulative:
  assumes "line_search L arrival_values n_assets n_simulations risk_free_rate delta f_current
             0 1 w = Inr (k, w')"
  shows "cumulative_attempts n_assets delta (if k < 10 then nat k + 1 else 10) w = Inr w'"
proof -
  from line_search_exit [OF assms] have "k \<le> 10" by (cases "k < 10") auto
  with line_search_cumulative [OF assms, of w] show ?thesis
    by (cases "k < 10") auto
qed

theorem line_search_is_cumulative_witness:
  "line_search lcg [] 2 0 0 [1, 0] 0 0 1 [1 / 2, 1 / 2]
     = Inr (10, [74927948639767 / 83724041661975, 8796093022208 / 83724041661975])
   \<and> cumulative_attempts 2 [1, 0] 10 [1 / 2, 1 / 2]
       = Inr [74927948639767 / 83724041661975, 8796093022208 / 83724041661975]
   \<and> ls_attempt 2 [1, 0] (1 / 512) [1 / 2, 1 / 2] = Inr [257 / 513, 256 / 513]"
proof -
  have run: "line_search lcg [] 2 0 0 [1, 0] 0 0 1 [1 / 2, 1 / 2]
     = Inr (10, [74927948639767 / 83724041661975, 8796093022208 / 83724041661975])"
    by (simp add: optimizer_eval)
  have rolled_back: "ls_attempt 2 [1, 0] (1 / 512) [1 / 2, 1 / 2] = Inr [257 / 513, 256 / 513]"
    by (simp add: optimizer_eval)
  from line_search_is_cumulative [OF run] run rolled_back show ?thesis by simp
qed

subsection \<open>The optimiser\<close>

lemma move_loop_length:
  assumes "for_loop 0 n (move alpha delta) w = Inr w'"
  shows "length w' = length w"
proof -
  have "(\<lambda>i v. length v = length w) (max 0 n) w'"
    by (rule for_loop_invariant [OF assms])
       (auto simp add: move_def add_to_Inr split: sum.splits)
  then show ?thesis .
qed

lemma clamp_Inr:
  "clamp i (w, s) = Inr (w', s') \<longleftrightarrow>
     0 \<le> i \<and> i < int (length w) \<and> w' = w[nat i := max (w ! nat i) 0] \<and> s' = s + max (w ! nat i) 0"
  by (auto simp add: clamp_def load_def store_def)

lemma clamp_loop:
  assumes "for_loop 0 n clamp (w, 0) = Inr (w', s)" and "length w = nat n"
  shows "length w' = length w \<and> (\<forall>x \<in> set w'. 0 \<le> x) \<and> s = sum_list w'"
proof -
  let ?P = "\<lambda>i t. length (fst t) = length w \<and> (\<forall>j < nat i. 0 \<le> fst t ! j)
                 \<and> snd t = sum_list (take (nat i) (fst t))"
  have "?P (max 0 n) (w', s)"
  proof (rule for_loop_invariant [OF assms(1)], goal_cases)
    case 1
    show ?case by simp
  next
    case (2 j t t')
    obtain v c v' c' where t: "t = (v, c)" "t' = (v', c')" by (cases t, cases t') auto
    from 2(4) t have j: "0 \<le> j" "j < int (length v)"
      and v': "v' = v[nat j := max (v ! nat j) 0]" and c': "c' = c + max (v ! nat j) 0"
      by (auto simp add: clamp_Inr)
    from j have nj: "nat (j + 1) = Suc (nat j)" "nat j < length v" by auto
    have "take (Suc (nat j)) v' = take (nat j) v @ [max (v ! nat j) 0]"
      using nj(2) v' by (simp add: take_Suc_conv_app_nth)
    moreover have "\<forall>k < Suc (nat j). 0 \<le> v' ! k"
      using 2(3) t v' nj(2) by (auto simp add: nth_list_update less_Suc_eq)
    ultimately show ?case
      using 2(3) t v' c' nj by simp
  qed
  with assms(2) show ?thesis
    by (auto simp add: max_def in_set_conv_nth split: if_splits)
qed

lemma rescale_Inr:
  "rescale s i w = Inr w' \<longleftrightarrow>
     0 \<le> i \<and> i < int (length w) \<and> w' = w[nat i := w ! nat i / s]"
  by (auto simp add: rescale_def load_def store_def)

lemma rescale_loop:
  assumes "for_loop 0 n (rescale s) w = Inr w'" and "length w = nat n"
  shows "w' = map (\<lambda>x. x / s) w"
proof -
  let ?P = "\<lambda>i v. length v = length w
                 \<and> (\<forall>j < length w. v ! j = (if j < nat i then w ! j / s else w ! j))"
  have "?P (max 0 n) w'"
  proof (rule for_loop_invariant [OF assms(1)], goal_cases)
    case 1
    show ?case by simp
  next
    case (2 j v v')
    from 2(4) have j: "0 \<le> j" "j < int (length v)" and v': "v' = v[nat j := v ! nat j / s]"
      by (auto simp add: rescale_Inr)
    from j have nj: "nat (j + 1) = Suc (nat j)" "nat j < length v" by auto
    show ?case
      using 2(3) v' nj by (auto simp add: nth_list_update less_Suc_eq)
  qed
  with assms(2) show ?thesis
    by (auto simp add: max_def list_eq_iff_nth_eq split: if_splits)
qed

lemma ls_attempt_simplex:
  assumes "ls_attempt n_assets delta alpha w = Inr w'" and "length w = nat n_assets"
  shows "length w' = nat n_assets \<and> on_simplex_or_zero w'"
proof -
  from assms(1) obtain w1 w2 s where
    m: "for_loop 0 n_assets (move alpha delta) w = Inr w1"
    and c: "for_loop 0 n_assets clamp (w1, 0) = Inr (w2, s)"
    and r: "if 0 < s then for_loop 0 n_assets (rescale s) w2 = Inr w' else w' = w2"
    by (auto simp add: ls_attempt_def split: sum.splits prod.splits if_splits)
  from move_loop_length [OF m] assms(2) have l1: "length w1 = nat n_assets" by simp
  from clamp_loop [OF c l1] l1 have l2: "length w2 = nat n_assets"
    and nonneg: "\<forall>x \<in> set w2. 0 \<le> x" and s: "s = sum_list w2" by auto
  show ?thesis
  proof (cases "0 < s")
    case True
    with r have "for_loop 0 n_assets (rescale s) w2 = Inr w'" by simp
    from rescale_loop [OF this l2] have w': "w' = map (\<lambda>x. x / s) w2" .
    have "sum_list w' = sum_list w2 / s"
      unfolding w' by (simp add: divide_inverse sum_list_mult_const)
    with True s w' nonneg l2 show ?thesis
      by (auto simp add: on_simplex_or_zero_def)
  next
    case False
    with r have w': "w' = w2" by simp
    from nonneg have "0 \<le> sum_list w2" by (simp add: sum_list_nonneg)
    with False s have "sum_list w2 = 0" by simp
    with nonneg have "\<forall>x \<in> set w2. x = 0"
      by (simp add: sum_list_nonneg_eq_0_iff)
    with w' nonneg l2 show ?thesis by (auto simp add: on_simplex_or_zero_def)
  qed
qed

lemma line_search_simplex:
  assumes "line_search L arrival_values n_assets n_simulations risk_free_rate delta f_current
             ls_iter alpha w = Inr (k, w')"
    and "length w = nat n_assets" and "ls_iter < 10"
  shows "length w' = nat n_assets \<and> on_simplex_or_zero w'"
  using assms
proof (induction L arrival_values n_assets n_simulations risk_free_rate delta f_current
         ls_iter alpha w rule: line_search.induct)
  case (1 L arrival_values n_assets n_simulations risk_free_rate delta f_current ls_iter alpha w)
  from "1.prems" obtain w1 f_new where
    a: "ls_attempt n_assets delta alpha w = Inr w1"
    and f: "negative_sharpe_ratio L w1 arrival_values n_assets n_simulations risk_free_rate = Inr f_new"
    by (subst (asm) line_search.simps) (auto split: sum.splits)
  note s1 = ls_attempt_simplex [OF a "1.prems"(2)]
  show ?case
  proof (cases "f_new < f_current")
    case True
    with "1.prems" a f have "w' = w1"
      by (subst (asm) line_search.simps) simp
    with s1 show ?thesis by simp
  next
    case False
    with "1.prems" a f have rest:
      "line_search L arrival_values n_assets n_simulations risk_free_rate delta f_current
         (ls_iter + 1) (alpha * (1 / 2)) w1 = Inr (k, w')"
      by (subst (asm) line_search.simps) simp
    show ?thesis
    proof (cases "ls_iter + 1 < 10")
      case True
      from "1.IH" [OF "1.prems"(3) a f False rest _ True] s1 show ?thesis by simp
    next
      case False
      with rest have "w' = w1" by (simp add: line_search.simps)
      with s1 show ?thesis by simp
    qed
  qed
qed

lemma newton_round_simplex:
  assumes "newton_round L arrival_values n_assets n_simulations risk_free_rate tolerance w
             = Inr (w', converged)"
    and "length w = nat n_assets"
  shows "length w' = nat n_assets \<and> on_simplex_or_zero w'"
proof -
  from newton_round_line_search [OF assms(1)] obtain delta f_current k where
    "line_search L arrival_values n_assets n_simulations risk_free_rate delta f_current 0 1 w
       = Inr (k, w')" by blast
  from line_search_simplex [OF this assms(2)] show ?thesis by simp
qed

lemma newton_loop_simplex:
  assumes "newton_loop L arrival_values n_assets n_simulations risk_free_rate max_iterations
             tolerance iter w = Inr w'"
    and "length w = nat n_assets" and "iter < max_iterations"
  shows "length w' = nat n_assets \<and> on_simplex_or_zero w'"
  using assms
proof (induction L arrival_values n_assets n_simulations risk_free_rate max_iterations
         tolerance iter w rule: newton_loop.induct)
  case (1 L arrival_values n_assets n_simulations risk_free_rate max_iterations tolerance iter w)
  from "1.prems" obtain w1 converged where
    r: "newton_round L arrival_values n_assets n_simulations risk_free_rate tolerance w
          = Inr (w1, converged)"
    by (subst (asm) newton_loop.simps) (auto split: sum.splits)
  note s1 = newton_round_simplex [OF r "1.prems"(2)]
  show ?case
  proof (cases converged)
    case True
    with "1.prems" r have "w' = w1" by (subst (asm) newton_loop.simps) simp
    with s1 show ?thesis by simp
  next
    case False
    with "1.prems" r have rest:
      "newton_loop L arrival_values n_assets n_simulations risk_free_rate max_iterations
         tolerance (iter + 1) w1 = Inr w'"
      by (subst (asm) newton_loop.simps) simp
    show ?thesis
    proof (cases "iter + 1 < max_iterations")
      case True
      from "1.IH" [OF "1.prems"(3) r _ False rest _ True] s1 show ?thesis by simp
    next
      case False
      with rest have "w' = w1" by (simp add: newton_loop.simps)
      with s1 show ?thesis by simp
    qed
  qed
qed

lemma copy_loop_length:
  assumes "for_loop 0 n (copy_weight initial_weights) w = Inr w'"
  shows "length w' = length w"
proof -
  have "(\<lambda>i v. length v = length w) (max 0 n) w'"
    by (rule for_loop_invariant [OF assms])
       (auto simp add: copy_weight_def store_Inr split: sum.splits)
  then show ?thesis .
qed

lemma copy_loop_copies:
  assumes "for_loop 0 n (copy_weight initial_weights) w0 = Inr w" and "length w0 = nat n"
  shows "w = take (nat n) initial_weights"
proof -
  let ?P = "\<lambda>i v. length v = length w0
              \<and> (\<forall>j < nat i. j < length initial_weights \<and> v ! j = initial_weights ! j)"
  have "?P (max 0 n) w"
  proof (rule for_loop_invariant [OF assms(1)], goal_cases)
    case 1
    show ?case by simp
  next
    case (2 j v v')
    from 2(4) have j: "0 \<le> j" "j < int (length initial_weights)" "j < int (length v)"
      and v': "v' = v[nat j := initial_weights ! nat j]"
      by (auto simp add: copy_weight_def load_Inr store_Inr split: sum.splits)
    from j have nj: "nat (j + 1) = Suc (nat j)" "nat j < length v" "nat j < length initial_weights"
      by auto
    show ?case
      using 2(3) v' nj by (auto simp add: nth_list_update less_Suc_eq)
  qed
  then have len: "length w = length w0"
    and all: "\<forall>j < nat (max 0 n). j < length initial_weights \<and> w ! j = initial_weights ! j"
    by simp_all
  show ?thesis
  proof (rule nth_equalityI)
    from all have "nat n \<le> length initial_weights"
      by (cases "nat n") (auto simp add: max_def split: if_splits)
    with len assms(2) show "length w = length (take (nat n) initial_weights)" by simp
  next
    fix i assume "i < length w"
    with len assms(2) have "i < nat n" by simp
    with all show "w ! i = take (nat n) initial_weights ! i" by (simp add: max_def split: if_splits)
  qed
qed

text \<open>
  The guard \<^verbatim>\<open>if (sum_weights > 0)\<close> of the projection is there for a step that leaves no
  positive weight: from the weights \<open>[1/4, 3/4]\<close> the step \<open>[-1, -1]\<close> gives \<open>[0, 0]\<close>, which
  is not rescaled. Every operation of this attempt is exact in doubles.
\<close>

lemma projection_without_positive_weight:
  "ls_attempt 2 [- 1, - 1] 1 [1 / 4, 3 / 4] = Inr [0, 0]"
  by (simp add: ls_attempt_def move_def clamp_def rescale_def add_to_def for_loop.simps
        load_def store_def)

text \<open>With one simulation the Sharpe ratio is 0 by the test \<^verbatim>\<open>n_values <= 1\<close>.\<close>

lemma objective_one_simulation:
  "negative_sharpe_ratio lcg [a, b] [5, 7] 2 1 r = Inr 0"
  by (simp add: optimizer_eval)

lemmas two_assets_eval =
  optimize_portfolio_newton_raphson_def newton_loop.simps newton_round_def line_search.simps
  ls_attempt_def move_def clamp_def rescale_def solve_diagonal_def clear_row_def clear_cell_def
  differentiate_def add_square_def copy_weight_def add_to_def load_cell_def store_cell_def
  allocate_matrix_def allocate_array_def objective_one_simulation
  for_loop.simps load_def store_def Let_def upt_conv_Cons

text \<open>
  Claim C1, refuted at a concrete input. With \<open>max_iterations = 0\<close> no round runs, and the
  projection is part of a round: the initial weights \<open>[2, 3]\<close>, of positive sum 5, are
  returned as they are. No arithmetic on doubles is involved.
\<close>

theorem simplex_counterexample:
  "optimize_portfolio_newton_raphson lcg [] 2 0 [2, 3] 0 0 0 = Inr [2, 3]
   \<and> 0 < sum_list [2, 3 :: real] \<and> sum_list [2, 3 :: real] \<noteq> 1"
  by (simp add: optimizer_eval)

text \<open>
  Claim C1, as amended. Take any call of the optimiser that returns weights; the doubles
  are read as exact reals, and a run that divides by a zero on the diagonal of the Hessian
  returns no weights here, so nothing is said about it. There are \<open>n_assets\<close> weights. When
  at least one round runs (\<open>max_iterations \<ge> 1\<close>), they are non-negative, and they sum to 1
  unless all of them are zero (the clamped weights had no positive entry, and the guard
  \<open>sum_weights > 0\<close> skipped the rescaling). When no round runs (\<open>max_iterations \<le> 0\<close>),
  they are the first \<open>n_assets\<close> initial weights, unchanged.
\<close>

theorem returned_weights_on_simplex:
  assumes "optimize_portfolio_newton_raphson L arrival_values n_assets n_simulations
             initial_weights risk_free_rate max_iterations tolerance = Inr w"
  shows "length w = nat n_assets
       \<and> (1 \<le> max_iterations \<longrightarrow>
            (\<forall>x \<in> set w. 0 \<le> x) \<and> (sum_list w = 1 \<or> (\<forall>x \<in> set w. x = 0)))
       \<and> (max_iterations \<le> 0 \<longrightarrow> w = take (nat n_assets) initial_weights)"
proof -
  from assms obtain w0 w1 where
    a: "allocate_array L n_assets = Some w0"
    and c: "for_loop 0 n_assets (copy_weight initial_weights) w0 = Inr w1"
    and l: "newton_loop L arrival_values n_assets n_simulations risk_free_rate max_iterations
              tolerance 0 w1 = Inr w"
    by (auto simp add: optimize_portfolio_newton_raphson_def split: option.splits sum.splits)
  from a have l0: "length w0 = nat n_assets"
    by (auto simp add: allocate_array_def split: if_splits)
  with copy_loop_length [OF c] have l1: "length w1 = nat n_assets" by simp
  from copy_loop_copies [OF c l0] have w1: "w1 = take (nat n_assets) initial_weights" .
  show ?thesis
  proof (cases "1 \<le> max_iterations")
    case True
    with newton_loop_simplex [OF l l1] show ?thesis
      by (simp add: on_simplex_or_zero_def)
  next
    case False
    with l have "w = w1" by (simp add: newton_loop.simps)
    with False l1 w1 show ?thesis by simp
  qed
qed

theorem returned_weights_on_simplex_witness:
  "optimize_portfolio_newton_raphson lcg [5, 7] 2 1 [1, 3] 0 2 0 = Inr [1 / 4, 3 / 4]
   \<and> (1::int) \<le> 2
   \<and> length [1 / 4, 3 / 4 :: real] = nat 2
   \<and> (0::real) \<le> [1 / 4, 3 / 4] ! 0 \<and> (0::real) \<le> [1 / 4, 3 / 4] ! 1
   \<and> sum_list [1 / 4, 3 / 4 :: real] = 1
   \<and> optimize_portfolio_newton_raphson lcg [5, 7] 2 1 [1, 3, 9] 0 0 0 = Inr [1, 3]
   \<and> (0::int) \<le> 0
   \<and> [1, 3 :: real] = take (nat 2) [1, 3, 9]"
proof -
  have run: "optimize_portfolio_newton_raphson lcg [5, 7] 2 1 [1, 3] 0 2 0 = Inr [1 / 4, 3 / 4]"
    by (simp add: two_assets_eval) (simp add: lcg_def)
  have none: "optimize_portfolio_newton_raphson lcg [5, 7] 2 1 [1, 3, 9] 0 0 0 = Inr [1, 3]"
    by (simp add: optimizer_eval)
  have h: "(1::int) \<le> 2" "(0::int) \<le> 0" by simp_all
  from returned_weights_on_simplex [OF run] h(1)
  have a: "length [1 / 4, 3 / 4 :: real] = nat 2"
    and s: "\<forall>x \<in> set [1 / 4, 3 / 4 :: real]. 0 \<le> x"
    and t: "sum_list [1 / 4, 3 / 4 :: real] = 1 \<or> (\<forall>x \<in> set [1 / 4, 3 / 4 :: real]. x = 0)"
    by blast+
  from returned_weights_on_simplex [OF none] h(2)
  have b: "[1, 3 :: real] = take (nat 2) [1, 3, 9]" by blast
  from s have c: "(0::real) \<le> [1 / 4, 3 / 4] ! 0 \<and> (0::real) \<le> [1 / 4, 3 / 4] ! 1" by simp
  from t have d: "sum_list [1 / 4, 3 / 4 :: real] = 1" by simp
  from run none h a b c d show ?thesis by blast
qed

end
